theory Spec2Isabelle
  imports Complex_Main "HOL-Library.Word" "HOL-Library.Multiset" "HOL-Library.Code_Target_Nat"
begin

unbundle bit_operations_syntax

section \<open>Binary64 arithmetic\<close>

text \<open>
  The benchmark computes with C++ \<open>double\<close>. A finite double is modelled by the rational
  number it denotes; every arithmetic operation computes the exact rational result and
  rounds it to the nearest binary64 value, ties to even (53 significant bits, exponent
  of the last place not below \<open>-1074\<close>). Infinities, NaN and the sign of zero are outside
  the model: no operation of the driver on the inputs considered here produces them
  (divisors are positive, magnitudes stay far below \<open>2 ^ 1024\<close>).
\<close>

type_synonym double = rat

function bit_length :: "int \<Rightarrow> int" where
  "bit_length n = (if n \<le> 0 then 0 else 1 + bit_length (n div 2))"
  by pat_completeness auto
termination
  by (relation "measure nat") auto

declare bit_length.simps [simp del]

definition ilog2 :: "rat \<Rightarrow> int" where
  \<comment> \<open>\<open>\<lfloor>log\<^sub>2 x\<rfloor>\<close> for \<open>0 < x\<close>\<close>
  "ilog2 x = (if 1 \<le> x then bit_length \<lfloor>x\<rfloor> - 1
              else - bit_length (\<lceil>1 / x\<rceil> - 1))"

definition pow2 :: "int \<Rightarrow> rat" where
  "pow2 e = (if 0 \<le> e then 2 ^ nat e else 1 / 2 ^ nat (- e))"

definition round_even :: "rat \<Rightarrow> int" where
  "round_even q = (let f = \<lfloor>q\<rfloor>; r = q - of_int f in
     if r < 1 / 2 then f else if 1 / 2 < r then f + 1 else if even f then f else f + 1)"

definition ulp_exp :: "rat \<Rightarrow> int" where
  \<comment> \<open>exponent of the unit in the last place of the binade of \<open>x\<close>\<close>
  "ulp_exp x = max (ilog2 \<bar>x\<bar> - 52) (- 1074)"

definition rnd :: "rat \<Rightarrow> double" where
  "rnd x = (if x = 0 then 0
            else of_int (round_even (x / pow2 (ulp_exp x))) * pow2 (ulp_exp x))"

definition dadd :: "double \<Rightarrow> double \<Rightarrow> double" where
  "dadd x y = rnd (x + y)"

definition dsub :: "double \<Rightarrow> double \<Rightarrow> double" where
  "dsub x y = rnd (x - y)"

definition dmul :: "double \<Rightarrow> double \<Rightarrow> double" where
  "dmul x y = rnd (x * y)"

definition ddiv :: "double \<Rightarrow> double \<Rightarrow> double" where
  "ddiv x y = rnd (x / y)"

definition double_of_int :: "int \<Rightarrow> double" where
  \<comment> \<open>conversion of an integer value to \<open>double\<close>: rounds when it has more than 53 bits\<close>
  "double_of_int i = rnd (of_int i)"

definition double_of_nat :: "nat \<Rightarrow> double" where
  "double_of_nat n = rnd (of_nat n)"

definition DBL_MAX :: double where
  "DBL_MAX = (2 ^ 53 - 1) * 2 ^ 971"

section \<open>The timing primitive: trimmed mean of the trials\<close>

definition num_trials :: nat where
  "num_trials = 10"

text \<open>
  Lines 40--42 of \<open>measure\<close>: \<open>std::sort\<close> of the trials, then \<open>std::accumulate\<close>
  from \<open>0.0\<close> over \<open>[begin + 2, end - 2)\<close>, divided by \<open>trials.size() - 4\<close>.
\<close>

definition robust_estimate :: "double list \<Rightarrow> double" where
  "robust_estimate trials =
     (let s = sort trials in
      ddiv (foldl dadd 0 (take (length s - 4) (drop 2 s))) (double_of_nat (length s - 4)))"

text \<open>
  The spec's wording of the same estimate: discard the lowest 2 and the highest 2 values
  of the batch, average the remaining 6.
\<close>

definition drop_lowest :: "rat list \<Rightarrow> rat list" where
  "drop_lowest xs = remove1 (Min (set xs)) xs"

definition drop_highest :: "rat list \<Rightarrow> rat list" where
  "drop_highest xs = remove1 (Max (set xs)) xs"

definition spec_middle :: "rat list \<Rightarrow> rat list" where
  "spec_middle xs = drop_highest (drop_highest (drop_lowest (drop_lowest xs)))"

fun sums_exact :: "rat \<Rightarrow> rat list \<Rightarrow> bool" where
  "sums_exact acc [] = True"
| "sums_exact acc (x # xs) = (rnd (acc + x) = acc + x \<and> sums_exact (acc + x) xs)"

section \<open>The clock, the trials and pause/resume\<close>

record clock =
  now :: int
  measure_start :: int
  measure_pause :: int

datatype 'a result = Value 'a clock | Thrown clock

type_synonym operation = "clock \<Rightarrow> unit result"

definition min_time_per_trial :: int where
  "min_time_per_trial = 200 * 1000000"

partial_function (option) do_while ::
  "operation \<Rightarrow> int \<Rightarrow> clock \<Rightarrow> (int \<times> int) result option" where
  "do_while f runs w =
     (case f w of
        Thrown w' \<Rightarrow> Some (Thrown w')
      | Value res w1 \<Rightarrow>
          (let runs' = runs + 1; t2 = now w1 in
           if t2 - measure_start w1 < min_time_per_trial then do_while f runs' w1
           else Some (Value (runs', t2) w1)))"

declare do_while.simps [code]

definition seconds :: "int \<Rightarrow> double" where
  "seconds ticks = ddiv (double_of_int ticks) 1000000000"

definition trial :: "operation \<Rightarrow> clock \<Rightarrow> double result option" where
  "trial f w =
     (case do_while f 0 (w\<lparr>measure_start := now w\<rparr>) of
        None \<Rightarrow> None
      | Some (Thrown w') \<Rightarrow> Some (Thrown w')
      | Some (Value (runs, t2) w') \<Rightarrow>
          Some (Value (ddiv (seconds (t2 - measure_start w')) (double_of_int runs)) w'))"

function trials_loop ::
  "operation \<Rightarrow> nat \<Rightarrow> double list \<Rightarrow> clock \<Rightarrow> double list result option" where
  "trials_loop f i trials w =
     (if i < num_trials then
        (case trial f w of
           None \<Rightarrow> None
         | Some (Thrown w') \<Rightarrow> Some (Thrown w')
         | Some (Value v w') \<Rightarrow> trials_loop f (i + 1) (trials[i := v]) w')
      else Some (Value trials w))"
  by pat_completeness auto
termination
  by (relation "measure (\<lambda>(f, i, trials, w). num_trials - i)") auto

declare trials_loop.simps [simp del]

definition measure_op :: "operation \<Rightarrow> clock \<Rightarrow> double result option" where
  "measure_op f w =
     (case trials_loop f 0 (replicate num_trials 0) w of
        None \<Rightarrow> None
      | Some (Thrown w') \<Rightarrow> Some (Thrown w')
      | Some (Value trials w') \<Rightarrow> Some (Value (robust_estimate trials) w'))"

definition pause_timing :: "clock \<Rightarrow> clock" where
  "pause_timing w = w\<lparr>measure_pause := now w\<rparr>"

definition resume_timing :: "clock \<Rightarrow> clock" where
  "resume_timing w = w\<lparr>measure_start := measure_start w + (now w - measure_pause w)\<rparr>"

definition elapse :: "int \<Rightarrow> clock \<Rightarrow> clock" where
  "elapse d w = w\<lparr>now := now w + d\<rparr>"

definition fixed_cost :: "int \<Rightarrow> operation" where
  "fixed_cost c w = Value () (elapse c w)"

definition paused_op :: "int \<Rightarrow> int \<Rightarrow> operation" where
  "paused_op D c w = Value () (elapse c (resume_timing (elapse D (pause_timing w))))"

definition repetitions :: "int \<Rightarrow> int" where
  "repetitions c = (min_time_per_trial + c - 1) div c"


fun calls :: "operation \<Rightarrow> nat \<Rightarrow> clock \<Rightarrow> clock option" where
  "calls f 0 w = Some w"
| "calls f (Suc n) w = (case f w of Value res w1 \<Rightarrow> calls f n w1 | Thrown w1 \<Rightarrow> None)"

definition elapsed :: "clock \<Rightarrow> int" where
  "elapsed w = now w - measure_start w"

fun chain :: "operation \<Rightarrow> clock \<Rightarrow> (double \<times> clock) list \<Rightarrow> clock \<Rightarrow> bool" where
  "chain f w [] w' = (w = w')"
| "chain f w ((v, w1) # rest) w' = (trial f w = Some (Value v w1) \<and> chain f w1 rest w')"

definition returned :: "'a result option \<Rightarrow> 'a option" where
  "returned r = (case r of Some (Value v w) \<Rightarrow> Some v | _ \<Rightarrow> None)"

definition per_call :: "int \<Rightarrow> double" where
  "per_call c = ddiv (seconds (repetitions c * c)) (double_of_int (repetitions c))"

definition after_trial :: "(clock \<Rightarrow> clock) \<Rightarrow> int \<Rightarrow> clock \<Rightarrow> clock" where
  "after_trial g c w = (g ^^ nat (repetitions c)) (w\<lparr>measure_start := now w\<rparr>)"

definition loop_post :: "operation \<Rightarrow> int \<Rightarrow> clock \<Rightarrow> int \<Rightarrow> int \<Rightarrow> clock \<Rightarrow> bool" where
  "loop_post f runs w r t2 w' \<longleftrightarrow>
     (\<exists>n. 0 < n \<and> r = runs + int n \<and> calls f n w = Some w' \<and> t2 = now w' \<and>
       min_time_per_trial \<le> elapsed w' \<and>
       (\<forall>k. 0 < k \<and> k < n \<longrightarrow>
          (\<exists>wk. calls f k w = Some wk \<and> elapsed wk < min_time_per_trial)))"

definition trial_post :: "operation \<Rightarrow> clock \<Rightarrow> double \<Rightarrow> clock \<Rightarrow> bool" where
  "trial_post f w v w' \<longleftrightarrow>
     (\<exists>n. 0 < n \<and> calls f n (w\<lparr>measure_start := now w\<rparr>) = Some w' \<and>
       min_time_per_trial \<le> elapsed w' \<and>
       v = ddiv (seconds (elapsed w')) (double_of_int (int n)) \<and>
       (\<forall>k. 0 < k \<and> k < n \<longrightarrow>
          (\<exists>wk. calls f k (w\<lparr>measure_start := now w\<rparr>) = Some wk \<and>
                elapsed wk < min_time_per_trial)))"

definition measure_post :: "operation \<Rightarrow> clock \<Rightarrow> double \<Rightarrow> clock \<Rightarrow> bool" where
  "measure_post f w v w' \<longleftrightarrow>
     (\<exists>steps. length steps = num_trials \<and> chain f w steps w' \<and>
        v = robust_estimate (map fst steps))"

section \<open>The dataset builder\<close>

text \<open>
  \<open>make\<close> is a template over the container and uses \<open>boost::detail::splitmix64\<close>; neither
  the containers (\<open>boost::hub\<close>, \<open>plf::hive\<close>) nor the generator belong to the benchmark's
  own source.

  Modelled from the spec: the generator (section 4.1) is a value of type
  \<open>'g generator\<close>: a fixed initial state, the one every default-constructed generator
  starts from, and a step function that returns the next 64-bit value together with the
  next state. Every definition and theorem below takes the generator as the parameter
  \<open>G\<close>. \<open>splitmix64\<close> is the instance with the published SplitMix64 step, seeded with 0,
  on which the theorems are run on concrete draws.

  Modelled from the spec: the container (section 6) is the list of its elements in
  iteration order; \<open>insert\<close> adds one element at the end, \<open>erase_if\<close> visits the elements
  once each, in order, calls the predicate on each and removes those for which it holds.
  An element is its \<open>int\<close> member \<open>n\<close>; the payload bytes are never written or read.

  \<open>platform\<close> holds what the build fixes: \<open>sizeof(std::size_t)\<close> and \<open>sizeof(element)\<close>
  (from the macro \<open>ELEMENT_SIZE\<close>).
\<close>

record platform =
  size_t_bytes :: nat
  element_bytes :: nat

type_synonym element = "32 word"
type_synonym container = "element list"

record 'g generator =
  initial :: 'g
  next_value :: "'g \<Rightarrow> 64 word \<times> 'g"

definition splitmix64_next :: "64 word \<Rightarrow> 64 word \<times> 64 word" where
  "splitmix64_next x =
     (let x1 = x + 0x9e3779b97f4a7c15;
          z1 = x1 XOR drop_bit 30 x1;
          z2 = z1 * 0xbf58476d1ce4e5b9;
          z3 = z2 XOR drop_bit 27 z2;
          z4 = z3 * 0x94d049bb133111eb
      in (z4 XOR drop_bit 31 z4, x1))"

definition splitmix64 :: "64 word generator" where
  "splitmix64 = \<lparr>initial = 0, next_value = splitmix64_next\<rparr>"

text \<open>
  Conversion of a \<open>double\<close> to an unsigned integer type of the given width truncates
  towards zero; the behaviour is undefined (\<open>None\<close>) when the truncated value is not
  representable. A quotient with divisor zero is infinite or NaN, so its conversion is
  undefined as well.
\<close>

definition double_to_unsigned :: "nat \<Rightarrow> double \<Rightarrow> nat option" where
  "double_to_unsigned bits x = (if - 1 < x \<and> x < 2 ^ bits then Some (nat \<lfloor>x\<rfloor>) else None)"

definition insertion_count :: "platform \<Rightarrow> nat \<Rightarrow> double \<Rightarrow> nat option" where
  "insertion_count pf n erasure_rate =
     (if dsub 1 erasure_rate = 0 then None
      else double_to_unsigned (8 * size_t_bytes pf)
             (ddiv (double_of_nat n) (dsub 1 erasure_rate)))"

definition uint64_max :: "64 word" where
  "uint64_max = - 1"

definition erasure_cut :: "double \<Rightarrow> 64 word option" where
  "erasure_cut erasure_rate =
     map_option of_nat
       (double_to_unsigned 64 (dmul erasure_rate (double_of_int (uint uint64_max))))"

function insert_loop ::
  "'g generator \<Rightarrow> nat \<Rightarrow> nat \<Rightarrow> container \<times> 'g \<Rightarrow> container \<times> 'g" where
  "insert_loop G i m (c, rng) =
     (if i < m then
        (let (v, rng') = next_value G rng
         in insert_loop G (i + 1) m (c @ [ucast v], rng'))
      else (c, rng))"
  by pat_completeness auto
termination
  by (relation "measure (\<lambda>(G, i, m, s). m - i)") auto

declare insert_loop.simps [simp del]

fun erase_if :: "('a \<Rightarrow> 's \<Rightarrow> bool \<times> 's) \<Rightarrow> 'a list \<Rightarrow> 's \<Rightarrow> 'a list \<times> 's" where
  "erase_if pred [] s = ([], s)"
| "erase_if pred (x # xs) s =
     (let (b, s1) = pred x s;
          (ys, s2) = erase_if pred xs s1
      in (if b then ys else x # ys, s2))"

definition erase_pred :: "'g generator \<Rightarrow> 64 word \<Rightarrow> element \<Rightarrow> 'g \<Rightarrow> bool \<times> 'g" where
  "erase_pred G ecut x rng = (let (v, rng') = next_value G rng in (v < ecut, rng'))"

definition make_run :: "'g generator \<Rightarrow> platform \<Rightarrow> nat \<Rightarrow> double \<Rightarrow> (container \<times> 'g) option" where
  "make_run G pf n erasure_rate =
     (case insertion_count pf n erasure_rate of
        None \<Rightarrow> None
      | Some m \<Rightarrow>
          (case erasure_cut erasure_rate of
             None \<Rightarrow> None
           | Some ecut \<Rightarrow>
               (let (c, rng) = insert_loop G 0 m ([], initial G)
                in Some (erase_if (erase_pred G ecut) c rng))))"

definition make :: "'g generator \<Rightarrow> platform \<Rightarrow> nat \<Rightarrow> double \<Rightarrow> container option" where
  "make G pf n erasure_rate = map_option fst (make_run G pf n erasure_rate)"

fun draws :: "'g generator \<Rightarrow> nat \<Rightarrow> 'g \<Rightarrow> 64 word list" where
  "draws G 0 s = []"
| "draws G (Suc k) s = fst (next_value G s) # draws G k (snd (next_value G s))"

fun state_after :: "'g generator \<Rightarrow> nat \<Rightarrow> 'g \<Rightarrow> 'g" where
  "state_after G 0 s = s"
| "state_after G (Suc k) s = state_after G k (snd (next_value G s))"

definition survivors :: "container \<Rightarrow> 64 word list \<Rightarrow> 64 word \<Rightarrow> container" where
  "survivors c ds ecut = map fst (filter (\<lambda>(x, d). \<not> d < ecut) (zip c ds))"

definition lp64 :: platform where
  "lp64 = \<lparr>size_t_bytes = 8, element_bytes = 8\<rparr>"


section \<open>The report and the driver\<close>

text \<open>
  What \<open>print_winner\<close> and \<open>main\<close> write to \<open>std::cout\<close> is the list of the items
  inserted into the stream, manipulators included, in order; how a number is formatted is
  left to the stream. A quotient of doubles is \<open>Finite\<close> with its rounded value, or
  \<open>Not_finite\<close> when the divisor is zero or the rounded quotient is above \<open>DBL_MAX\<close>
  (an infinity or a NaN).
\<close>

datatype quotient = Finite double | Not_finite

definition fquot :: "double \<Rightarrow> double \<Rightarrow> quotient" where
  "fquot x y =
     (if y = 0 then Not_finite
      else if DBL_MAX < \<bar>ddiv x y\<bar> then Not_finite
      else Finite (ddiv x y))"

datatype item =
  Str string | Integer int | Dbl quotient
  | Fixed | Defaultfloat | Setprecision nat | Setw nat | Left | Right | Flush | Endl

text \<open>
  \<open>std::min_element\<close> keeps the first position whose value is strictly below all earlier
  ones; on an empty range it returns the end of the range. Positions are indices into the
  list. \<open>std::min a b\<close> is \<open>b\<close> if \<open>b < a\<close> and \<open>a\<close> otherwise. \<open>print_winner\<close> dereferences
  the position of the minimum, which an empty list does not have: the result is then
  \<open>None\<close>.
\<close>

function min_element_loop :: "double list \<Rightarrow> nat \<Rightarrow> nat \<Rightarrow> nat" where
  "min_element_loop xs first smallest =
     (if first < length xs then
        min_element_loop xs (first + 1) (if xs ! first < xs ! smallest then first else smallest)
      else smallest)"
  by pat_completeness auto
termination
  by (relation "measure (\<lambda>(xs, first, smallest). length xs - first)") auto

declare min_element_loop.simps [simp del]

definition min_element :: "double list \<Rightarrow> nat" where
  "min_element xs = (if xs = [] then length xs else min_element_loop xs 1 0)"

definition std_min :: "double \<Rightarrow> double \<Rightarrow> double" where
  "std_min a b = (if b < a then b else a)"

function next_min_loop :: "double list \<Rightarrow> nat \<Rightarrow> nat \<Rightarrow> double \<Rightarrow> double" where
  "next_min_loop il it_min it next_min =
     (if it < length il then
        (if it = it_min then next_min_loop il it_min (it + 1) next_min
         else next_min_loop il it_min (it + 1) (std_min next_min (il ! it)))
      else next_min)"
  by pat_completeness auto
termination
  by (relation "measure (\<lambda>(il, it_min, it, next_min). length il - it)") auto

declare next_min_loop.simps [simp del]

definition print_winner :: "double \<Rightarrow> double list \<Rightarrow> item list option" where
  "print_winner th il =
     (let it_min = min_element il in
      if it_min = length il then None
      else
        (let next_min = next_min_loop il it_min 0 DBL_MAX in
         Some [Integer (int it_min + 1), Fixed, Setprecision 2,
               Str '' ('', Dbl (fquot next_min (il ! it_min)), Str ''x, '',
               Dbl (fquot th (il ! it_min)), Str ''x)  '',
               Defaultfloat, Setprecision 6]))"

text \<open>
  The size guard of \<open>main\<close>, in binary64 as the code computes it. A zero divisor gives
  \<open>+\<infinity>\<close> for a positive dividend, which is above every limit, and a NaN for a zero
  dividend, which compares false.
\<close>

definition size_limit :: "platform \<Rightarrow> nat" where
  "size_limit pf =
     (if size_t_bytes pf = 4 then 800 * 1024 * 1024 else 2048 * 1024 * 1024)"

definition too_large :: "platform \<Rightarrow> nat \<Rightarrow> double \<Rightarrow> bool" where
  "too_large pf n erasure_rate =
     (let x = dmul (double_of_nat n) (double_of_nat (element_bytes pf));
          d = dsub 1 erasure_rate
      in if d = 0 then 0 < x
         else double_of_nat (size_limit pf) < ddiv x d)"

text \<open>
  The five lambdas of \<open>main\<close> differ in the container they build and in the sort they call.
  The containers and their sorts are not part of the benchmark's source: what a call of
  \<open>make\<close> and a call of a sort do to the clock, and whether they fail with
  \<open>std::bad_alloc\<close> (\<open>Thrown\<close>), is the parameter \<open>E\<close>. The value \<open>c.size()\<close> that a
  lambda returns is discarded by \<open>measure\<close>.
\<close>

datatype algorithm = Hive_sort | Sort1 | Sort2 | Sort3 | Sort4

datatype env = Env
  (make_effect: "algorithm \<Rightarrow> nat \<Rightarrow> double \<Rightarrow> clock \<Rightarrow> unit result")
  (sort_effect: "algorithm \<Rightarrow> nat \<Rightarrow> double \<Rightarrow> clock \<Rightarrow> unit result")

definition sort_lambda :: "env \<Rightarrow> algorithm \<Rightarrow> nat \<Rightarrow> double \<Rightarrow> operation" where
  "sort_lambda E alg n erasure_rate w =
     (case make_effect E alg n erasure_rate (pause_timing w) of
        Thrown w1 \<Rightarrow> Thrown w1
      | Value c w1 \<Rightarrow> sort_effect E alg n erasure_rate (resume_timing w1))"

text \<open>
  The body of the inner loop: the guard, then the \<open>try\<close> block with its handler for
  \<open>std::bad_alloc\<close>. \<open>and_then\<close> sequences two steps of the \<open>try\<close> block: an exception or
  a call of \<open>measure\<close> that does not return ends the block. The state is the clock together
  with the output written so far. The size is \<open>10 ^ i\<close>: \<open>std::pow(10.0, i)\<close> is exact for
  the exponents of the grid.
\<close>

definition and_then ::
  "'a result option \<Rightarrow> ('a \<Rightarrow> clock \<Rightarrow> 'b result option) \<Rightarrow> 'b result option" where
  "and_then r k =
     (case r of None \<Rightarrow> None
      | Some (Thrown w) \<Rightarrow> Some (Thrown w)
      | Some (Value v w) \<Rightarrow> k v w)"

definition report :: "double \<Rightarrow> double list \<Rightarrow> clock \<Rightarrow> item list result option" where
  "report th il w = map_option (\<lambda>items. Value items w) (print_winner th il)"

definition try_block :: "env \<Rightarrow> platform \<Rightarrow> nat \<Rightarrow> double \<Rightarrow> clock \<Rightarrow> item list result option" where
  "try_block E pf n erasure_rate w =
     and_then (measure_op (sort_lambda E Hive_sort n erasure_rate) w) (\<lambda>th w.
     and_then (measure_op (sort_lambda E Sort1 n erasure_rate) w) (\<lambda>t1 w.
     and_then (measure_op (sort_lambda E Sort2 n erasure_rate) w) (\<lambda>t2 w.
       if element_bytes pf \<le> 2 * size_t_bytes pf then
         and_then (measure_op (sort_lambda E Sort3 n erasure_rate) w) (\<lambda>t3 w.
         and_then (measure_op (sort_lambda E Sort4 n erasure_rate) w) (\<lambda>t4 w.
           report th [t1, t2, t3, t4] w))
       else report th [t1, t2] w)))"

definition cell ::
  "env \<Rightarrow> platform \<Rightarrow> double \<Rightarrow> nat \<Rightarrow> clock \<times> item list \<Rightarrow> (clock \<times> item list) option" where
  "cell E pf erasure_rate i s =
     (let n = 10 ^ i; w = fst s; out = snd s in
      if too_large pf n erasure_rate then
        Some (w, out @ [Str ''too large         '', Flush])
      else
        (case try_block E pf n erasure_rate w of
           None \<Rightarrow> None
         | Some (Thrown w') \<Rightarrow> Some (w', out @ [Str ''out of memory     '', Flush])
         | Some (Value items w') \<Rightarrow> Some (w', out @ items @ [Flush])))"









definition erasure_rates :: "double list" where
  "erasure_rates = map (\<lambda>k. ((\<lambda>r. dadd r (rnd (1 / 10))) ^^ k) 0) [0..<10]"

text \<open>
  Inputs for the examples: an environment in which every construction of a dataset fails
  with \<open>std::bad_alloc\<close>, a 64-bit platform with elements of 64 bytes, and a loop body
  that records the values it is run on.
\<close>

definition oom_env :: env where
  "oom_env = Env (\<lambda>alg n r w. Thrown w) (\<lambda>alg n r w. Value () w)"

definition wide :: platform where
  "wide = \<lparr>size_t_bytes = 8, element_bytes = 64\<rparr>"



section \<open>Facts about rounding\<close>

lemma rnd_zero: "rnd 0 = 0"
  by (simp add: rnd_def)

lemma double_of_nat_6: "double_of_nat 6 = 6"
  by code_simp

lemma foldl_dadd_exact:
  "sums_exact acc xs \<Longrightarrow> foldl dadd acc xs = acc + sum_list xs"
  by (induction xs arbitrary: acc) (auto simp: dadd_def)

lemma pow2_pos: "0 < pow2 e"
  by (simp add: pow2_def)

lemma round_even_of_int: "round_even (of_int z) = z"
  by (simp add: round_even_def)

lemma round_even_nonneg: "0 \<le> q \<Longrightarrow> 0 \<le> round_even q"
  by (auto simp: round_even_def Let_def)

lemma rnd_nonneg: "0 \<le> x \<Longrightarrow> 0 \<le> rnd x"
  by (auto simp: rnd_def pow2_pos less_imp_le intro!: mult_nonneg_nonneg round_even_nonneg)

lemma bit_length_le: "k < 2 ^ b \<Longrightarrow> bit_length k \<le> int b"
proof (induction b arbitrary: k)
  case 0
  then show ?case by (subst bit_length.simps) simp
next
  case (Suc b)
  show ?case
  proof (cases "k \<le> 0")
    case True
    then show ?thesis by (subst bit_length.simps) simp
  next
    case False
    have "k div 2 < 2 ^ b" using Suc.prems by simp
    then have "bit_length (k div 2) \<le> int b" by (rule Suc.IH)
    then show ?thesis using False by (subst bit_length.simps) simp
  qed
qed

lemma bit_length_nonneg: "0 \<le> bit_length k"
  by (induction k rule: bit_length.induct) (subst bit_length.simps, simp)

lemma rnd_integer_exact:
  assumes "0 < z" and "z < 2 ^ 53"
  shows "rnd (of_int z) = of_int z"
proof -
  let ?x = "of_int z :: rat"
  have x1: "1 \<le> ?x" using assms(1) by simp
  have "bit_length z \<le> 53" using bit_length_le [of z 53] assms(2) by simp
  moreover have "0 \<le> bit_length z" by (rule bit_length_nonneg)
  ultimately have e: "ulp_exp ?x \<le> 0" "- 1074 \<le> ulp_exp ?x"
    using x1 by (simp_all add: ulp_exp_def ilog2_def)
  define k where "k = nat (- ulp_exp ?x)"
  have p: "pow2 (ulp_exp ?x) = 1 / 2 ^ k"
  proof (cases "ulp_exp ?x = 0")
    case True
    then show ?thesis by (simp add: pow2_def k_def)
  next
    case False
    then show ?thesis using e by (simp add: pow2_def k_def)
  qed
  have "?x / pow2 (ulp_exp ?x) = of_int (z * 2 ^ k)" by (simp add: p)
  then have "round_even (?x / pow2 (ulp_exp ?x)) = z * 2 ^ k"
    by (simp only: round_even_of_int)
  then show ?thesis using assms(1) by (simp add: rnd_def p)
qed

lemma rnd_2_53: "rnd 9007199254740992 = 9007199254740992"
  by code_simp

lemma double_of_nat_exact:
  assumes "n \<le> 2 ^ 53"
  shows "double_of_nat n = of_nat n"
proof (cases "n = 0 \<or> n = 2 ^ 53")
  case True
  then show ?thesis by (auto simp: double_of_nat_def rnd_zero rnd_2_53)
next
  case False
  then have "0 < int n" "int n < 2 ^ 53" using assms by auto
  from rnd_integer_exact [OF this] show ?thesis by (simp add: double_of_nat_def)
qed

text \<open>Evaluation of the rounding function on numerals.\<close>

lemma floor_rat_numeral_div:
  "\<lfloor>numeral a / numeral b :: rat\<rfloor> = numeral a div numeral b"
  by (metis floor_divide_of_int_eq of_int_numeral)

lemma floor_rat_neg_numeral_div:
  "\<lfloor>- (numeral a / numeral b) :: rat\<rfloor> = - numeral a div numeral b"
  by (metis divide_minus_left floor_divide_of_int_eq of_int_neg_numeral of_int_numeral)

lemma floor_rat_one_div:
  "\<lfloor>1 / numeral b :: rat\<rfloor> = 1 div numeral b"
  by (metis floor_divide_of_int_eq of_int_1 of_int_numeral)

lemma ceiling_rat_numeral_div:
  "\<lceil>numeral a / numeral b :: rat\<rceil> = - (- numeral a div numeral b)"
  unfolding ceiling_def by (simp only: minus_divide_left [symmetric] floor_rat_neg_numeral_div)

lemmas fp_eval = rnd_def ulp_exp_def ilog2_def pow2_def round_even_def Let_def dadd_def dsub_def
  dmul_def ddiv_def double_of_nat_def double_of_int_def
  floor_rat_numeral_div floor_rat_neg_numeral_div floor_rat_one_div ceiling_rat_numeral_div
  bit_length.simps

text \<open>Rounding error, and rounding of positive values.\<close>

lemma pow2_powi: "pow2 e = 2 powi e"
  by (auto simp: pow2_def power_int_def inverse_eq_divide power_one_over)

lemma pow2_add: "pow2 (a + b) = pow2 a * pow2 b"
  by (simp add: pow2_powi power_int_add)

lemma pow2_numeral_1: "pow2 (- 53) = 1 / 2 ^ 53" "pow2 52 = 2 ^ 52" "pow2 (- 52) = 1 / 2 ^ 52"
  by (simp_all add: pow2_def)

lemma round_even_error: "\<bar>of_int (round_even q) - q\<bar> \<le> 1 / 2"
proof -
  have "of_int \<lfloor>q\<rfloor> \<le> q" "q < of_int \<lfloor>q\<rfloor> + 1"
    using floor_correct [of q] by simp_all
  then show ?thesis
    by (auto simp: round_even_def Let_def abs_le_iff)
qed

lemma round_even_ge_floor: "\<lfloor>q\<rfloor> \<le> round_even q"
  by (simp add: round_even_def Let_def)

lemma rnd_error: "\<bar>rnd x - x\<bar> \<le> pow2 (ulp_exp x) / 2"
proof (cases "x = 0")
  case True
  then show ?thesis using pow2_pos [of "ulp_exp x"] by (simp add: rnd_def)
next
  case False
  let ?p = "pow2 (ulp_exp x)"
  let ?q = "x / ?p"
  have p: "0 < ?p" by (rule pow2_pos)
  then have "rnd x - x = (of_int (round_even ?q) - ?q) * ?p"
    using False by (simp add: rnd_def algebra_simps)
  then have "\<bar>rnd x - x\<bar> = \<bar>of_int (round_even ?q) - ?q\<bar> * ?p"
    using p by (simp add: abs_mult)
  also have "\<dots> \<le> (1 / 2) * ?p"
    using round_even_error [of ?q] p by (intro mult_right_mono) simp_all
  finally show ?thesis by simp
qed

lemma bit_length_upper: "0 \<le> m \<Longrightarrow> m < 2 ^ nat (bit_length m)"
proof (induction m rule: bit_length.induct)
  case (1 n)
  show ?case
  proof (cases "n \<le> 0")
    case True
    with 1(2) have "n = 0" by simp
    then show ?thesis by (subst bit_length.simps) simp
  next
    case False
    then have h: "n div 2 < 2 ^ nat (bit_length (n div 2))"
      using 1(1) by simp
    have b: "0 \<le> bit_length (n div 2)" by (rule bit_length_nonneg)
    have "n < 2 * (n div 2 + 1)" by simp
    also have "\<dots> \<le> 2 * 2 ^ nat (bit_length (n div 2))" using h by simp
    also have "\<dots> = 2 ^ nat (1 + bit_length (n div 2))"
      using b by (simp add: nat_add_distrib)
    finally show ?thesis using False by (subst bit_length.simps) simp
  qed
qed

lemma ilog2_below_one:
  assumes "0 < x" and "x < 1"
  shows "pow2 (ilog2 x) \<le> x"
proof -
  define m where "m = \<lceil>1 / x\<rceil> - 1"
  have "1 < 1 / x" using assms by simp
  then have "1 < \<lceil>1 / x\<rceil>" using assms by (subst less_ceiling_iff) simp
  then have m0: "0 \<le> m" unfolding m_def by linarith
  have il: "ilog2 x = - bit_length m" using assms by (simp add: ilog2_def m_def)
  have b: "0 \<le> bit_length m" by (rule bit_length_nonneg)
  have "m + 1 \<le> 2 ^ nat (bit_length m)" using bit_length_upper [OF m0] by simp
  then have "(of_int (m + 1) :: rat) \<le> of_int (2 ^ nat (bit_length m))"
    by (simp only: of_int_le_iff)
  moreover have "1 / x \<le> of_int (m + 1)" by (simp add: m_def le_of_int_ceiling)
  ultimately have "1 / x \<le> 2 ^ nat (bit_length m)" by simp
  then have "1 / 2 ^ nat (bit_length m) \<le> x"
    using assms(1) by (simp add: field_simps)
  moreover have "pow2 (- bit_length m) = 1 / 2 ^ nat (bit_length m)"
    using b by (cases "bit_length m = 0") (simp_all add: pow2_def)
  ultimately show ?thesis by (simp add: il)
qed

lemma rnd_pos_below_one:
  assumes "1 / 2 ^ 53 \<le> x" and "x < 1"
  shows "0 < rnd x"
proof -
  have x0: "0 < x" by (rule less_le_trans [OF _ assms(1)]) simp
  define m where "m = \<lceil>1 / x\<rceil> - 1"
  have "1 / x \<le> 2 ^ 53" using assms(1) x0 by (simp add: field_simps)
  then have "\<lceil>1 / x\<rceil> \<le> 2 ^ 53" by (simp add: ceiling_le_iff)
  then have "m < 2 ^ 53" by (simp add: m_def)
  then have "bit_length m \<le> 53" using bit_length_le [of m 53] by simp
  then have il: "- 53 \<le> ilog2 x" using assms(2) by (simp add: ilog2_def m_def)
  then have e: "ulp_exp x = ilog2 x - 52" using x0 by (simp add: ulp_exp_def)
  let ?p = "pow2 (ilog2 x - 52)"
  have p: "?p = pow2 (ilog2 x) / 2 ^ 52"
    using pow2_add [of "ilog2 x" "- 52"] by (simp add: pow2_numeral_1)
  have pp: "0 < pow2 (ilog2 x)" by (rule pow2_pos)
  have "2 ^ 52 \<le> x / ?p"
    using ilog2_below_one [OF x0 assms(2)] pp by (simp add: p field_simps)
  then have "2 ^ 52 \<le> \<lfloor>x / ?p\<rfloor>" by (simp add: le_floor_iff)
  moreover have "(0::int) < 2 ^ 52" by simp
  ultimately have "0 < round_even (x / ?p)"
    using round_even_ge_floor [of "x / ?p"] by linarith
  then show ?thesis
    using x0 pow2_pos [of "ilog2 x - 52"] by (simp add: rnd_def e)
qed

lemma double_below_one:
  assumes "rnd p = p" and "1 / 2 \<le> p" and "p < 1"
  shows "1 / 2 ^ 53 \<le> 1 - p"
proof -
  have p0: "0 < p" using assms(2) by simp
  have "1 < 1 / p" "1 / p \<le> 2" using assms(2,3) p0 by (simp_all add: field_simps)
  then have "\<lceil>1 / p\<rceil> = 2" by (simp add: ceiling_eq_iff)
  then have "ilog2 p = - 1"
    using assms(3) by (simp add: ilog2_def bit_length.simps)
  then have e: "ulp_exp p = - 53" using p0 by (simp add: ulp_exp_def)
  define z where "z = round_even (p / pow2 (- 53))"
  have pz: "p = of_int z / 2 ^ 53"
    using assms(1) p0 by (simp add: rnd_def e z_def pow2_numeral_1)
  then have "of_int z < (2 ^ 53 :: rat)" using assms(3) by (simp add: field_simps)
  then have "z < 2 ^ 53" by (metis of_int_less_iff of_int_numeral of_int_power)
  then have "z \<le> 2 ^ 53 - 1" by simp
  then have "(of_int z :: rat) \<le> of_int (2 ^ 53 - 1)" by (simp only: of_int_le_iff)
  then have "(of_int z :: rat) \<le> 2 ^ 53 - 1" by simp
  then show ?thesis by (simp add: pz field_simps)
qed

lemma rnd_1: "rnd 1 = 1"
  by (simp add: fp_eval)

lemma dsub_one_pos:
  assumes "rnd p = p" and "0 \<le> p" and "p < 1"
  shows "0 < dsub 1 p"
proof (cases "p = 0")
  case True
  then show ?thesis by (simp add: dsub_def rnd_1)
next
  case False
  then have lt: "1 - p < 1" using assms(2) by simp
  have "1 / 2 ^ 53 \<le> 1 - p"
  proof (cases "1 / 2 \<le> p")
    case True
    then show ?thesis by (rule double_below_one [OF assms(1) _ assms(3)])
  next
    case False
    then have "1 / 2 \<le> 1 - p" by simp
    then show ?thesis by (rule order_trans [rotated]) simp
  qed
  from rnd_pos_below_one [OF this lt] show ?thesis by (simp add: dsub_def)
qed

section \<open>Facts about trimming\<close>

lemma hd_sort_Min:
  assumes "xs \<noteq> []"
  shows "hd (sort xs) = Min (set xs)"
proof -
  obtain y ys where s: "sort xs = y # ys"
    using assms by (cases "sort xs") (auto dest: arg_cong [where f = length])
  have "sorted (y # ys)" using s by (metis sorted_sort)
  then have le: "\<forall>z \<in> set (y # ys). y \<le> z" by auto
  have set: "set (y # ys) = set xs" using s by (metis set_sort)
  have "Min (set xs) = y"
  proof (rule Min_eqI)
    show "finite (set xs)" by simp
    show "\<And>z. z \<in> set xs \<Longrightarrow> y \<le> z" using le set by blast
    show "y \<in> set xs" using set by auto
  qed
  then show ?thesis by (simp add: s)
qed

lemma last_sort_Max:
  assumes "xs \<noteq> []"
  shows "last (sort xs) = Max (set xs)"
proof -
  have ne: "sort xs \<noteq> []"
    using assms by (auto dest: arg_cong [where f = length])
  then obtain ys y where s: "sort xs = ys @ [y]"
    by (metis append_butlast_last_id)
  have "sorted (ys @ [y])" using s by (metis sorted_sort)
  then have le: "\<forall>z \<in> set (ys @ [y]). z \<le> y" by (auto simp: sorted_append)
  have set: "set (ys @ [y]) = set xs" using s by (metis set_sort)
  have "Max (set xs) = y"
  proof (rule Max_eqI)
    show "finite (set xs)" by simp
    show "\<And>z. z \<in> set xs \<Longrightarrow> z \<le> y" using le set by blast
    show "y \<in> set xs" using set by auto
  qed
  then show ?thesis by (simp add: s)
qed

lemma sort_remove1_Min:
  assumes "xs \<noteq> []"
  shows "sort (remove1 (Min (set xs)) xs) = tl (sort xs)"
proof (rule properties_for_sort)
  have ne: "sort xs \<noteq> []"
    using assms by (auto dest: arg_cong [where f = length])
  have "mset (tl (sort xs)) = mset (sort xs) - {#hd (sort xs)#}"
    using ne by (cases "sort xs") auto
  then show "mset (tl (sort xs)) = mset (remove1 (Min (set xs)) xs)"
    by (simp add: hd_sort_Min [OF assms])
  show "sorted (tl (sort xs))"
    by (simp add: sorted_tl)
qed

lemma sort_remove1_Max:
  assumes "xs \<noteq> []"
  shows "sort (remove1 (Max (set xs)) xs) = butlast (sort xs)"
proof (rule properties_for_sort)
  have ne: "sort xs \<noteq> []"
    using assms by (auto dest: arg_cong [where f = length])
  obtain ys y where s: "sort xs = ys @ [y]"
    using ne by (metis append_butlast_last_id)
  have "mset (butlast (sort xs)) = mset (sort xs) - {#last (sort xs)#}"
    unfolding s by simp
  then show "mset (butlast (sort xs)) = mset (remove1 (Max (set xs)) xs)"
    by (simp add: last_sort_Max [OF assms])
  show "sorted (butlast (sort xs))"
    by (simp add: sorted_butlast)
qed

lemma length_drop_lowest: "xs \<noteq> [] \<Longrightarrow> length (drop_lowest xs) = length xs - 1"
  by (simp add: drop_lowest_def length_remove1)

lemma length_drop_highest: "xs \<noteq> [] \<Longrightarrow> length (drop_highest xs) = length xs - 1"
  by (simp add: drop_highest_def length_remove1)

lemma sort_drop_lowest: "xs \<noteq> [] \<Longrightarrow> sort (drop_lowest xs) = drop 1 (sort xs)"
  by (simp add: drop_lowest_def sort_remove1_Min drop_Suc)

lemma sort_drop_highest:
  "xs \<noteq> [] \<Longrightarrow> sort (drop_highest xs) = take (length xs - 1) (sort xs)"
  by (simp add: drop_highest_def sort_remove1_Max butlast_conv_take)

lemma sort_spec_middle:
  assumes "length xs = 10"
  shows "sort (spec_middle xs) = take 6 (drop 2 (sort xs))"
proof -
  let ?a = "drop_lowest xs"
  let ?b = "drop_lowest ?a"
  let ?c = "drop_highest ?b"
  have xs: "xs \<noteq> []" using assms by auto
  have la: "length ?a = 9" using assms xs by (simp add: length_drop_lowest)
  then have a: "?a \<noteq> []" by auto
  have lb: "length ?b = 8" using la a by (simp add: length_drop_lowest)
  then have b: "?b \<noteq> []" by auto
  have lc: "length ?c = 7" using lb b by (simp add: length_drop_highest)
  then have c: "?c \<noteq> []" by auto
  have sb: "sort ?b = drop 2 (sort xs)"
    by (simp add: sort_drop_lowest [OF a] sort_drop_lowest [OF xs] numeral_2_eq_2)
  have "sort (spec_middle xs) = take 6 (take 7 (sort ?b))"
    unfolding spec_middle_def
    by (simp add: sort_drop_highest [OF c] sort_drop_highest [OF b] lb lc)
  then show ?thesis by (simp add: sb)
qed

lemma sum_list_sort: "sum_list (sort xs) = sum_list (xs :: rat list)"
proof -
  have "sum_mset (mset (sort xs)) = sum_mset (mset xs)" by simp
  then show ?thesis by (simp only: sum_mset_sum_list)
qed

section \<open>Facts about the trial loop\<close>

lemma min_time_pos: "0 < min_time_per_trial"
  by (simp add: min_time_per_trial_def)

lemma repetitions_reach:
  assumes "0 < c"
  shows "min_time_per_trial \<le> repetitions c * c"
proof -
  let ?n = "min_time_per_trial + c - 1"
  have "?n = ?n div c * c + ?n mod c" by simp
  moreover have "?n mod c < c" using assms by simp
  ultimately show ?thesis unfolding repetitions_def by linarith
qed

lemma repetitions_least:
  assumes "0 < c" and "min_time_per_trial \<le> k * c"
  shows "repetitions c \<le> k"
proof -
  have "(min_time_per_trial + c - 1) div c \<le> (k * c + (c - 1)) div c"
    using assms by (intro zdiv_mono1) auto
  also have "\<dots> = k" using assms by (simp add: div_pos_pos_trivial)
  finally show ?thesis by (simp add: repetitions_def)
qed

lemma repetitions_above:
  assumes "0 < c" and "k * c < min_time_per_trial"
  shows "k < repetitions c"
proof (rule ccontr)
  assume "\<not> k < repetitions c"
  then have "repetitions c \<le> k" by simp
  then have "repetitions c * c \<le> k * c" using assms(1) by (simp add: mult_right_mono)
  with repetitions_reach [OF assms(1)] assms(2) show False by linarith
qed

lemma repetitions_pos: "0 < c \<Longrightarrow> 0 < repetitions c"
  using repetitions_above [of c 0] min_time_pos by simp

lemma do_while_pure:
  fixes g :: "clock \<Rightarrow> clock"
  assumes c: "0 < c"
    and el: "\<And>w. now (g w) - measure_start (g w) = now w - measure_start (w :: clock) + c"
  shows "0 \<le> k \<Longrightarrow> k < repetitions c \<Longrightarrow> now w - measure_start w = k * c \<Longrightarrow>
         n = nat (repetitions c - k) \<Longrightarrow>
         do_while (\<lambda>w. Value () (g w)) k w =
           Some (Value (repetitions c, now ((g ^^ n) w)) ((g ^^ n) w))"
proof (induction n arbitrary: k w)
  case 0
  then show ?case by simp
next
  case (Suc n)
  have e: "now (g w) - measure_start (g w) = (k + 1) * c"
    using el [of w] Suc.prems(3) by (simp add: algebra_simps)
  show ?case
  proof (cases "(k + 1) * c < min_time_per_trial")
    case True
    then have lt: "k + 1 < repetitions c" using repetitions_above [OF c] by blast
    have n: "n = nat (repetitions c - (k + 1))" using Suc.prems(4) by simp
    have "do_while (\<lambda>w. Value () (g w)) (k + 1) (g w) =
            Some (Value (repetitions c, now ((g ^^ n) (g w))) ((g ^^ n) (g w)))"
      using Suc.IH [OF _ lt e n] Suc.prems(1) by simp
    then show ?thesis
      using True e by (subst do_while.simps) (simp add: funpow_swap1)
  next
    case False
    then have "repetitions c \<le> k + 1" using repetitions_least [OF c] by simp
    with Suc.prems(2) have r: "repetitions c = k + 1" by simp
    then have "n = 0" using Suc.prems(4) by simp
    then show ?thesis
      using False e r by (subst do_while.simps) simp
  qed
qed

lemma funpow_elapsed:
  fixes g :: "clock \<Rightarrow> clock"
  assumes el: "\<And>w. now (g w) - measure_start (g w) = now w - measure_start (w :: clock) + c"
  shows "now ((g ^^ n) w) - measure_start ((g ^^ n) w) = now w - measure_start w + int n * c"
proof (induction n)
  case 0
  show ?case by simp
next
  case (Suc n)
  have "now ((g ^^ Suc n) w) - measure_start ((g ^^ Suc n) w) =
        now ((g ^^ n) w) - measure_start ((g ^^ n) w) + c"
    using el [of "(g ^^ n) w"] by simp
  also have "\<dots> = now w - measure_start w + int (Suc n) * c"
    unfolding Suc.IH by (simp add: algebra_simps)
  finally show ?case .
qed

lemma trial_pure:
  fixes g :: "clock \<Rightarrow> clock"
  assumes c: "0 < c"
    and el: "\<And>w. now (g w) - measure_start (g w) = now w - measure_start (w :: clock) + c"
  shows "trial (\<lambda>w. Value () (g w)) w = Some (Value (per_call c) (after_trial g c w))"
proof -
  let ?w0 = "w\<lparr>measure_start := now w\<rparr>"
  let ?n = "nat (repetitions c)"
  have r: "0 < repetitions c" by (rule repetitions_pos [OF c])
  have dw: "do_while (\<lambda>w. Value () (g w)) 0 ?w0 =
      Some (Value (repetitions c, now ((g ^^ ?n) ?w0)) ((g ^^ ?n) ?w0))"
    by (rule do_while_pure [OF c el]) (use r in simp_all)
  have "now ((g ^^ ?n) ?w0) - measure_start ((g ^^ ?n) ?w0) = repetitions c * c"
    using funpow_elapsed [of g c ?n ?w0, OF el] r by simp
  then show ?thesis
    by (simp add: trial_def dw per_call_def after_trial_def)
qed

lemma trials_loop_pure:
  fixes g :: "clock \<Rightarrow> clock"
  assumes c: "0 < c"
    and el: "\<And>w. now (g w) - measure_start (g w) = now w - measure_start (w :: clock) + c"
  shows "i + n = num_trials \<Longrightarrow> length trials = num_trials \<Longrightarrow>
         trials_loop (\<lambda>w. Value () (g w)) i trials w =
           Some (Value (take i trials @ replicate n (per_call c)) ((after_trial g c ^^ n) w))"
proof (induction n arbitrary: i trials w)
  case 0
  then show ?case by (subst trials_loop.simps) simp
next
  case (Suc n)
  have i: "i < num_trials" using Suc.prems(1) by simp
  have "trials_loop (\<lambda>w. Value () (g w)) (i + 1) (trials[i := per_call c]) (after_trial g c w) =
      Some (Value (take (i + 1) (trials[i := per_call c]) @ replicate n (per_call c))
         ((after_trial g c ^^ n) (after_trial g c w)))"
    using Suc.prems by (intro Suc.IH) simp_all
  moreover have "take (i + 1) (trials[i := per_call c]) = take i trials @ [per_call c]"
    using i Suc.prems(2) by (simp add: take_Suc_conv_app_nth)
  ultimately show ?case
    using i by (subst trials_loop.simps)
      (simp add: trial_pure [OF c el] funpow_swap1 replicate_app_Cons_same)
qed

lemma measure_op_pure:
  fixes g :: "clock \<Rightarrow> clock"
  assumes c: "0 < c"
    and el: "\<And>w. now (g w) - measure_start (g w) = now w - measure_start (w :: clock) + c"
  shows "measure_op (\<lambda>w. Value () (g w)) w =
           Some (Value (robust_estimate (replicate num_trials (per_call c)))
              ((after_trial g c ^^ num_trials) w))"
  using trials_loop_pure [OF c el, of 0 num_trials "replicate num_trials 0" w]
  by (simp add: measure_op_def)

lemma do_while_general_aux:
  assumes "do_while f runs w = Some y"
  shows "\<forall>r t2 w'. y = Value (r, t2) w' \<longrightarrow> loop_post f runs w r t2 w'"
proof (rule do_while.raw_induct
    [where P = "\<lambda>f runs w y. \<forall>r t2 w'. y = Value (r, t2) w' \<longrightarrow> loop_post f runs w r t2 w'",
      OF _ assms])
  fix do_while' :: "operation \<Rightarrow> int \<Rightarrow> clock \<Rightarrow> (int \<times> int) result option"
  fix f runs w y
  assume IH: "\<And>f runs w y. do_while' f runs w = Some y \<Longrightarrow>
      \<forall>r t2 w'. y = Value (r, t2) w' \<longrightarrow> loop_post f runs w r t2 w'"
  assume body: "(case f w of
      Value res w1 \<Rightarrow>
        let runs' = runs + 1; t2 = now w1
        in if t2 - measure_start w1 < min_time_per_trial
           then do_while' f runs' w1 else Some (Value (runs', t2) w1)
      | Thrown w' \<Rightarrow> Some (Thrown w')) = Some y"
  show "\<forall>r t2 w'. y = Value (r, t2) w' \<longrightarrow> loop_post f runs w r t2 w'"
  proof (intro allI impI)
    fix r t2 w'
    assume y: "y = Value (r, t2) w'"
    show "loop_post f runs w r t2 w'"
    proof (cases "f w")
      case (Thrown w1)
      with body y show ?thesis by simp
    next
      case (Value res w1)
      show ?thesis
      proof (cases "now w1 - measure_start w1 < min_time_per_trial")
        case True
        then have "do_while' f (runs + 1) w1 = Some y"
          using body Value by (simp add: Let_def)
        from IH [OF this] y have "loop_post f (runs + 1) w1 r t2 w'" by blast
        then obtain n where n: "0 < n" "r = runs + 1 + int n"
          "calls f n w1 = Some w'" "t2 = now w'" "min_time_per_trial \<le> elapsed w'"
          "\<forall>k. 0 < k \<and> k < n \<longrightarrow>
             (\<exists>wk. calls f k w1 = Some wk \<and> elapsed wk < min_time_per_trial)"
          unfolding loop_post_def by blast
        have mid: "\<exists>wk. calls f k w = Some wk \<and> elapsed wk < min_time_per_trial"
          if k: "0 < k" "k < Suc n" for k
        proof (cases k)
          case 0
          with k show ?thesis by simp
        next
          case (Suc j)
          show ?thesis
          proof (cases "j = 0")
            case True
            then show ?thesis
              using Suc Value \<open>now w1 - measure_start w1 < min_time_per_trial\<close>
              by (simp add: elapsed_def)
          next
            case False
            then have "0 < j \<and> j < n" using k Suc by simp
            with n(6) show ?thesis using Suc Value by simp
          qed
        qed
        show ?thesis
          unfolding loop_post_def
          by (rule exI [of _ "Suc n"]) (use n Value mid in simp)
      next
        case False
        then have "y = Value (runs + 1, now w1) w1"
          using body Value by (simp add: Let_def)
        with y have "r = runs + 1" "t2 = now w1" "w' = w1" by auto
        then show ?thesis
          unfolding loop_post_def
          using False Value by (intro exI [of _ "Suc 0"]) (simp add: elapsed_def)
      qed
    qed
  qed
qed

lemma do_while_general:
  "do_while f runs w = Some (Value (r, t2) w') \<Longrightarrow> loop_post f runs w r t2 w'"
  using do_while_general_aux by blast

lemma trial_general:
  assumes "trial f w = Some (Value v w')"
  shows "trial_post f w v w'"
proof -
  from assms obtain r t2 where
    dw: "do_while f 0 (w\<lparr>measure_start := now w\<rparr>) = Some (Value (r, t2) w')"
    and v: "v = ddiv (seconds (t2 - measure_start w')) (double_of_int r)"
    by (auto simp: trial_def split: option.splits result.splits)
  from do_while_general [OF dw] v show ?thesis
    unfolding loop_post_def trial_post_def by (auto simp: elapsed_def)
qed

lemma trials_loop_general:
  "i + n = num_trials \<Longrightarrow> length trials = num_trials \<Longrightarrow>
   trials_loop f i trials w = Some (Value ts w') \<Longrightarrow>
   \<exists>steps. length steps = n \<and> chain f w steps w' \<and> ts = take i trials @ map fst steps"
proof (induction n arbitrary: i trials w)
  case 0
  then show ?case
    by (subst (asm) trials_loop.simps) simp
next
  case (Suc n)
  have i: "i < num_trials" using Suc.prems(1) by simp
  from Suc.prems(3) obtain v w1 where
    t: "trial f w = Some (Value v w1)"
    and rest: "trials_loop f (i + 1) (trials[i := v]) w1 = Some (Value ts w')"
    using i by (subst (asm) trials_loop.simps) (auto split: option.splits result.splits)
  have "\<exists>steps. length steps = n \<and> chain f w1 steps w' \<and>
          ts = take (i + 1) (trials[i := v]) @ map fst steps"
    using Suc.prems(1,2) rest by (intro Suc.IH) simp_all
  then obtain steps where st: "length steps = n" "chain f w1 steps w'"
    "ts = take (i + 1) (trials[i := v]) @ map fst steps" by blast
  have "take (i + 1) (trials[i := v]) = take i trials @ [v]"
    using i Suc.prems(2) by (simp add: take_Suc_conv_app_nth)
  then show ?case
    using st t by (intro exI [of _ "(v, w1) # steps"]) simp
qed

lemma measure_op_general:
  assumes "measure_op f w = Some (Value v w')"
  shows "\<exists>steps. length steps = num_trials \<and> chain f w steps w' \<and>
           v = robust_estimate (map fst steps)"
proof -
  from assms obtain ts where
    tl: "trials_loop f 0 (replicate num_trials 0) w = Some (Value ts w')"
    and v: "v = robust_estimate ts"
    by (auto simp: measure_op_def split: option.splits result.splits)
  from trials_loop_general [OF _ _ tl, of num_trials] v show ?thesis by auto
qed

lemma elapse_funpow: "(elapse c ^^ n) w = w\<lparr>now := now w + int n * c\<rparr>"
proof (induction n)
  case 0
  show ?case by simp
next
  case (Suc n)
  have "(elapse c ^^ Suc n) w = elapse c (w\<lparr>now := now w + int n * c\<rparr>)"
    by (simp only: funpow.simps o_apply Suc.IH)
  also have "\<dots> = w\<lparr>now := now w + int (Suc n) * c\<rparr>"
    by (simp add: elapse_def algebra_simps)
  finally show ?case .
qed

lemma after_trial_elapse:
  "0 < c \<Longrightarrow> after_trial (elapse c) c w =
     w\<lparr>measure_start := now w, now := now w + repetitions c * c\<rparr>"
  using repetitions_pos [of c] by (simp add: after_trial_def elapse_funpow)

lemma after_trials_elapse:
  "0 < c \<Longrightarrow> (after_trial (elapse c) c ^^ Suc n) w =
     w\<lparr>measure_start := now w + int n * (repetitions c * c),
       now := now w + int (Suc n) * (repetitions c * c)\<rparr>"
proof (induction n)
  case 0
  then show ?case by (simp add: after_trial_elapse)
next
  case (Suc n)
  have "(after_trial (elapse c) c ^^ Suc (Suc n)) w =
        after_trial (elapse c) c (w\<lparr>measure_start := now w + int n * (repetitions c * c),
          now := now w + int (Suc n) * (repetitions c * c)\<rparr>)"
    using Suc.prems by (simp only: funpow.simps(2) [of "Suc n"] o_apply Suc.IH)
  also have "\<dots> = w\<lparr>measure_start := now w + int (Suc n) * (repetitions c * c),
          now := now w + int (Suc (Suc n)) * (repetitions c * c)\<rparr>"
    using Suc.prems by (simp add: after_trial_elapse algebra_simps)
  finally show ?case .
qed

lemma elapsed_elapse:
  "now (elapse c w) - measure_start (elapse c w) = now w - measure_start w + c"
  by (simp add: elapse_def)

lemma elapsed_paused:
  "now (elapse c (resume_timing (elapse D (pause_timing w)))) -
   measure_start (elapse c (resume_timing (elapse D (pause_timing w)))) =
   now w - measure_start w + c"
  by (simp add: elapse_def resume_timing_def pause_timing_def)

lemma fixed_cost_pure: "fixed_cost c = (\<lambda>w. Value () (elapse c w))"
  by (rule ext) (simp add: fixed_cost_def)

lemma paused_op_pure:
  "paused_op D c = (\<lambda>w. Value () (elapse c (resume_timing (elapse D (pause_timing w)))))"
  by (rule ext) (simp add: paused_op_def)

lemma measure_op_post: "measure_op f w = Some (Value v w') \<Longrightarrow> measure_post f w v w'"
  unfolding measure_post_def by (rule measure_op_general)

lemma robust_estimate_replicate:
  "robust_estimate (replicate 10 v) = ddiv (foldl dadd 0 [v, v, v, v, v, v]) 6"
proof -
  have s: "sort (replicate 10 v) = replicate 10 v"
    by (rule sort_key_id_if_sorted) simp
  have "take 6 (drop 2 (replicate 10 v)) = replicate 6 v" by simp
  also have "\<dots> = [v, v, v, v, v, v]" by (simp add: eval_nat_numeral)
  finally show ?thesis
    by (simp add: robust_estimate_def s double_of_nat_6)
qed

lemma per_call_70ms:
  "ddiv (seconds 210000000) (double_of_int 3) = 5044031582654955 / 72057594037927936"
  by (simp add: seconds_def fp_eval)

lemma estimate_70ms_value:
  "robust_estimate (replicate 10 (5044031582654955 / 72057594037927936)) =
     5044031582654955 / 72057594037927936"
  by (simp add: robust_estimate_replicate) (simp add: fp_eval)

lemma estimate_70ms:
  "robust_estimate (replicate 10 (ddiv (seconds 210000000) (double_of_int 3))) =
     5044031582654955 / 72057594037927936"
  unfolding per_call_70ms by (rule estimate_70ms_value)

lemma per_call_100ms: "per_call 100000000 = rnd (1 / 10)"
  by (simp add: per_call_def repetitions_def min_time_per_trial_def seconds_def fp_eval)

lemma tenth: "rnd (1 / 10) = 3602879701896397 / 36028797018963968"
  by (simp add: fp_eval)

lemma estimate_tenths:
  "robust_estimate (replicate 10 (3602879701896397 / 36028797018963968)) =
     7205759403792793 / 72057594037927936"
  by (simp add: robust_estimate_replicate) (simp add: fp_eval)

lemma spec_middle_replicate:
  "spec_middle (replicate 10 v) = [v, v, v, v, v, v]"
proof -
  have "replicate 10 v = [v, v, v, v, v, v, v, v, v, v]" by (simp add: eval_nat_numeral)
  then show ?thesis by (simp add: spec_middle_def drop_lowest_def drop_highest_def)
qed

section \<open>Claims about the trimmed mean\<close>

text \<open>
  C1 (as amended). For a batch of 10 trial values the estimate returned by \<open>measure\<close> is
  the binary64 mean of the six values that remain after the 2 smallest and the 2 largest
  are discarded: they are added in ascending order to a running sum that starts at
  \<open>0.0\<close>, every addition rounded to the nearest double, and the sum is divided by \<open>6.0\<close>,
  rounded once more. Whenever the running sums and the quotient are binary64 values, so
  that nothing is rounded, the estimate is the exact arithmetic mean of the six values;
  this is so for the batch 1, 2, ..., 9, 100 (in any order), whose estimate is 5.5.
\<close>

theorem robust_estimate_is_trimmed_mean:
  assumes "length trials = 10"
  shows "robust_estimate trials = ddiv (foldl dadd 0 (sort (spec_middle trials))) 6 \<and>
         (sums_exact 0 (sort (spec_middle trials)) \<and>
          rnd (sum_list (spec_middle trials) / 6) = sum_list (spec_middle trials) / 6
          \<longrightarrow> robust_estimate trials = sum_list (spec_middle trials) / 6)"
proof -
  have mid: "take (length (sort trials) - 4) (drop 2 (sort trials)) = sort (spec_middle trials)"
    using assms by (simp add: sort_spec_middle)
  have est: "robust_estimate trials = ddiv (foldl dadd 0 (sort (spec_middle trials))) 6"
    unfolding robust_estimate_def Let_def mid using assms by (simp add: double_of_nat_6)
  have "robust_estimate trials = sum_list (spec_middle trials) / 6"
    if ex: "sums_exact 0 (sort (spec_middle trials))"
      and q: "rnd (sum_list (spec_middle trials) / 6) = sum_list (spec_middle trials) / 6"
  proof -
    have "foldl dadd 0 (sort (spec_middle trials)) = sum_list (spec_middle trials)"
      using foldl_dadd_exact [OF ex] by (simp add: sum_list_sort)
    then show ?thesis using q by (simp add: est ddiv_def)
  qed
  with est show ?thesis by blast
qed

theorem robust_estimate_example:
  "robust_estimate [100, 3, 1, 9, 2, 8, 4, 7, 5, 6] = 11 / 2 \<and>
   sort (spec_middle [100, 3, 1, 9, 2, 8, 4, 7, 5, 6]) = [3, 4, 5, 6, 7, 8]"
proof -
  let ?b = "[100, 3, 1, 9, 2, 8, 4, 7, 5, 6] :: rat list"
  have len: "length ?b = 10" by simp
  have mid: "sort (spec_middle ?b) = [3, 4, 5, 6, 7, 8]"
    by (simp add: spec_middle_def drop_lowest_def drop_highest_def)
  have ex: "sums_exact 0 [3, 4, 5, 6, 7, 8]" by (simp add: fp_eval)
  have s: "sum_list (spec_middle ?b) = 33"
    using sum_list_sort [of "spec_middle ?b"] unfolding mid by simp
  have q: "rnd (33 / 6) = 33 / 6" by (simp add: fp_eval)
  from robust_estimate_is_trimmed_mean [OF len] ex q s mid show ?thesis by simp
qed

text \<open>
  The estimate is not the exact arithmetic mean of the six middle values in general. An
  operation that takes 100 ms per call is called twice in every trial, so \<open>measure\<close>
  collects ten trial values equal to the double 0.1; the running sum of six of them is the
  double 0.6, its quotient by 6 rounds to the double just below 0.1, and that is the value
  returned, while the exact mean of the six values is the double 0.1 itself.
\<close>

theorem robust_estimate_rounds:
  "returned (measure_op (fixed_cost 100000000)
       \<lparr>now = 0, measure_start = 0, measure_pause = 0\<rparr>) =
     Some (robust_estimate (replicate 10 (rnd (1 / 10)))) \<and>
   robust_estimate (replicate 10 (rnd (1 / 10))) = 7205759403792793 / 72057594037927936 \<and>
   sum_list (spec_middle (replicate 10 (rnd (1 / 10)))) / 6 =
     7205759403792794 / 72057594037927936 \<and>
   robust_estimate (replicate 10 (rnd (1 / 10))) \<noteq>
     sum_list (spec_middle (replicate 10 (rnd (1 / 10)))) / 6"
proof -
  have c: "(0::int) < 100000000" by simp
  have m: "returned (measure_op (fixed_cost 100000000)
        \<lparr>now = 0, measure_start = 0, measure_pause = 0\<rparr>) =
      Some (robust_estimate (replicate 10 (rnd (1 / 10))))"
    using measure_op_pure [OF c elapsed_elapse, of "\<lparr>now = 0, measure_start = 0, measure_pause = 0\<rparr>"]
    by (simp add: fixed_cost_pure returned_def per_call_100ms num_trials_def)
  have e: "robust_estimate (replicate 10 (rnd (1 / 10))) = 7205759403792793 / 72057594037927936"
    unfolding tenth by (rule estimate_tenths)
  have s: "sum_list (spec_middle (replicate 10 (rnd (1 / 10)))) / 6 =
      7205759403792794 / 72057594037927936"
    unfolding tenth spec_middle_replicate by simp
  from m e s show ?thesis by simp
qed

section \<open>Claims about the trials\<close>

text \<open>
  C2. Every call of \<open>measure\<close> that returns has performed exactly 10 trials, one after
  the other (\<open>measure_post\<close>). Each trial resets \<open>measure_start\<close> to the current time and
  calls the operation again and again, sampling the clock after every call, until the
  time elapsed since \<open>measure_start\<close> is at least 200 ms for the first time; its value is
  that elapsed time, in seconds, divided by the number of calls (\<open>trial_post\<close>). For an
  operation whose every call takes \<open>c > 0\<close> clock ticks (nanoseconds) the trial returns,
  the number of calls is the least integer \<open>r\<close> with \<open>r * c\<close> at least 200 ms, the recorded
  value is \<open>r * c\<close> ticks in seconds divided by \<open>r\<close>, and \<open>measure\<close> returns after
  \<open>10 * r\<close> calls.
\<close>

theorem measure_trials_fixed_cost:
  assumes "0 < c"
  shows "(\<forall>f w v w'. measure_op f w = Some (Value v w') \<longrightarrow> measure_post f w v w') \<and>
         (\<forall>f w v w'. trial f w = Some (Value v w') \<longrightarrow> trial_post f w v w') \<and>
         do_while (fixed_cost c) 0 (w\<lparr>measure_start := now w\<rparr>) =
           Some (Value (repetitions c, now w + repetitions c * c)
                  (w\<lparr>measure_start := now w, now := now w + repetitions c * c\<rparr>)) \<and>
         min_time_per_trial \<le> repetitions c * c \<and>
         (\<forall>k. min_time_per_trial \<le> k * c \<longrightarrow> repetitions c \<le> k) \<and>
         trial (fixed_cost c) w =
           Some (Value (ddiv (seconds (repetitions c * c)) (double_of_int (repetitions c)))
                  (w\<lparr>measure_start := now w, now := now w + repetitions c * c\<rparr>)) \<and>
         measure_op (fixed_cost c) w =
           Some (Value (robust_estimate (replicate 10
                    (ddiv (seconds (repetitions c * c)) (double_of_int (repetitions c)))))
                  (w\<lparr>measure_start := now w + 9 * (repetitions c * c),
                     now := now w + 10 * (repetitions c * c)\<rparr>))"
proof -
  let ?w0 = "w\<lparr>measure_start := now w\<rparr>"
  have r: "0 < repetitions c" by (rule repetitions_pos [OF assms])
  have "do_while (\<lambda>w. Value () (elapse c w)) 0 ?w0 =
      Some (Value (repetitions c, now ((elapse c ^^ nat (repetitions c)) ?w0))
         ((elapse c ^^ nat (repetitions c)) ?w0))"
    by (rule do_while_pure [OF assms elapsed_elapse]) (use r in simp_all)
  then have dw: "do_while (fixed_cost c) 0 ?w0 =
      Some (Value (repetitions c, now w + repetitions c * c)
         (w\<lparr>measure_start := now w, now := now w + repetitions c * c\<rparr>))"
    using r by (simp add: fixed_cost_pure elapse_funpow)
  have tr: "trial (fixed_cost c) w =
      Some (Value (ddiv (seconds (repetitions c * c)) (double_of_int (repetitions c)))
         (w\<lparr>measure_start := now w, now := now w + repetitions c * c\<rparr>))"
    using trial_pure [OF assms elapsed_elapse, of w]
    by (simp add: fixed_cost_pure after_trial_elapse [OF assms] per_call_def)
  have "(after_trial (elapse c) c ^^ num_trials) w =
      w\<lparr>measure_start := now w + 9 * (repetitions c * c),
        now := now w + 10 * (repetitions c * c)\<rparr>"
    using after_trials_elapse [OF assms, of 9 w] by (simp add: num_trials_def)
  then have me: "measure_op (fixed_cost c) w =
      Some (Value (robust_estimate (replicate 10
               (ddiv (seconds (repetitions c * c)) (double_of_int (repetitions c)))))
         (w\<lparr>measure_start := now w + 9 * (repetitions c * c),
            now := now w + 10 * (repetitions c * c)\<rparr>))"
    using measure_op_pure [OF assms elapsed_elapse, of w]
    by (simp add: fixed_cost_pure per_call_def num_trials_def)
  from dw tr me repetitions_reach [OF assms] repetitions_least [OF assms]
    measure_op_post trial_general
  show ?thesis by blast
qed


theorem measure_trials_fixed_cost_example:
  "do_while (fixed_cost 70000000) 0 \<lparr>now = 5, measure_start = 5, measure_pause = 0\<rparr> =
     Some (Value (3, 210000005) \<lparr>now = 210000005, measure_start = 5, measure_pause = 0\<rparr>) \<and>
   measure_op (fixed_cost 70000000) \<lparr>now = 5, measure_start = 0, measure_pause = 0\<rparr> =
     Some (Value (5044031582654955 / 72057594037927936)
       \<lparr>now = 2100000005, measure_start = 1890000005, measure_pause = 0\<rparr>)"
proof -
  have c: "(0::int) < 70000000" by simp
  have r: "repetitions 70000000 = 3"
    by (simp add: repetitions_def min_time_per_trial_def)
  from measure_trials_fixed_cost [OF c, of "\<lparr>now = 5, measure_start = 0, measure_pause = 0\<rparr>"]
  show ?thesis by (simp add: r estimate_70ms)
qed

text \<open>
  C3. \<open>resume_timing\<close> moves \<open>measure_start\<close> forward by exactly the time that passed
  since \<open>pause_timing\<close> recorded \<open>measure_pause\<close>, and leaves the clock alone. So a span
  of any duration \<open>D\<close> between a pause and the matching resume leaves the elapsed time of
  the trial unchanged, and for an operation that pauses, spends \<open>D\<close>, resumes and then
  works for \<open>c > 0\<close> ticks, the value of a trial and the result of \<open>measure\<close> are those
  of the operation that only works for \<open>c\<close> ticks: they do not depend on \<open>D\<close>.
\<close>

theorem pause_resume_excluded:
  assumes "0 < c"
  shows "measure_start (resume_timing w) = measure_start w + (now w - measure_pause w) \<and>
         now (resume_timing w) = now w \<and>
         measure_start (resume_timing (elapse D (pause_timing w))) = measure_start w + D \<and>
         elapsed (resume_timing (elapse D (pause_timing w))) = elapsed w \<and>
         returned (trial (paused_op D c) w) =
           Some (ddiv (seconds (repetitions c * c)) (double_of_int (repetitions c))) \<and>
         returned (measure_op (paused_op D c) w) = returned (measure_op (fixed_cost c) w) \<and>
         (\<forall>D'. returned (measure_op (paused_op D c) w) = returned (measure_op (paused_op D' c) w)) \<and>
         (\<exists>v. returned (measure_op (paused_op D c) w) = Some v)"
proof -
  have a: "measure_start (resume_timing w) = measure_start w + (now w - measure_pause w)"
    "now (resume_timing w) = now w"
    by (simp_all add: resume_timing_def)
  have b: "measure_start (resume_timing (elapse D (pause_timing w))) = measure_start w + D"
    "elapsed (resume_timing (elapse D (pause_timing w))) = elapsed w"
    by (simp_all add: resume_timing_def elapse_def pause_timing_def elapsed_def)
  have t: "returned (trial (paused_op D c) w) =
      Some (ddiv (seconds (repetitions c * c)) (double_of_int (repetitions c)))"
    using trial_pure [where g = "\<lambda>w. elapse c (resume_timing (elapse D (pause_timing w)))"
        and w = w, OF assms elapsed_paused]
    by (simp add: paused_op_pure returned_def per_call_def)
  have m: "returned (measure_op (paused_op D' c) w) =
      Some (robust_estimate (replicate num_trials (per_call c)))" for D'
    using measure_op_pure [where g = "\<lambda>w. elapse c (resume_timing (elapse D' (pause_timing w)))"
        and w = w, OF assms elapsed_paused]
    by (simp add: paused_op_pure returned_def)
  have f: "returned (measure_op (fixed_cost c) w) =
      Some (robust_estimate (replicate num_trials (per_call c)))"
    using measure_op_pure [OF assms elapsed_elapse, of w]
    by (simp add: fixed_cost_pure returned_def)
  from a b t m f show ?thesis by simp
qed

theorem pause_resume_excluded_example:
  "returned (measure_op (paused_op 500000000 70000000)
       \<lparr>now = 5, measure_start = 0, measure_pause = 0\<rparr>) =
     Some (5044031582654955 / 72057594037927936) \<and>
   returned (measure_op (paused_op 0 70000000)
       \<lparr>now = 5, measure_start = 0, measure_pause = 0\<rparr>) =
     Some (5044031582654955 / 72057594037927936) \<and>
   measure_start (resume_timing (elapse 500000000
       (pause_timing \<lparr>now = 5, measure_start = 0, measure_pause = 0\<rparr>))) = 500000000"
proof -
  have c: "(0::int) < 70000000" by simp
  have r: "repetitions 70000000 = 3"
    by (simp add: repetitions_def min_time_per_trial_def)
  have m: "returned (measure_op (fixed_cost 70000000)
       \<lparr>now = 5, measure_start = 0, measure_pause = 0\<rparr>) =
     Some (5044031582654955 / 72057594037927936)"
    using measure_op_pure [OF c elapsed_elapse, of "\<lparr>now = 5, measure_start = 0, measure_pause = 0\<rparr>"]
    by (simp add: fixed_cost_pure returned_def per_call_def r num_trials_def estimate_70ms)
  from pause_resume_excluded [OF c, of "\<lparr>now = 5, measure_start = 0, measure_pause = 0\<rparr>" 500000000]
    pause_resume_excluded [OF c, of "\<lparr>now = 5, measure_start = 0, measure_pause = 0\<rparr>" 0] m
  show ?thesis by simp
qed

section \<open>Facts about the dataset builder\<close>

lemma length_draws: "length (draws G k s) = k"
  by (induction k arbitrary: s) simp_all

lemma draws_add: "draws G (a + b) s = draws G a s @ draws G b (state_after G a s)"
  by (induction a arbitrary: s) simp_all

lemma state_after_add: "state_after G (a + b) s = state_after G b (state_after G a s)"
  by (induction a arbitrary: s) simp_all

lemma insert_loop_draws:
  "insert_loop G i m (c, s) = (c @ map ucast (draws G (m - i) s), state_after G (m - i) s)"
proof (induction "m - i" arbitrary: i c s)
  case 0
  then show ?case by (subst insert_loop.simps) simp
next
  case (Suc k)
  then have i: "i < m" and k: "k = m - (i + 1)" and mi: "m - i = Suc k" by simp_all
  have "insert_loop G (i + 1) m (c @ [ucast (fst (next_value G s))], snd (next_value G s)) =
      ((c @ [ucast (fst (next_value G s))]) @ map ucast (draws G k (snd (next_value G s))),
       state_after G k (snd (next_value G s)))"
    unfolding k by (rule Suc.hyps(1) [OF k])
  then show ?case
    using i by (subst insert_loop.simps) (simp add: mi split_beta)
qed

lemma erase_if_draws:
  "erase_if (erase_pred G ecut) c s =
     (survivors c (draws G (length c) s) ecut, state_after G (length c) s)"
  by (induction c arbitrary: s) (simp_all add: survivors_def erase_pred_def split_beta)

lemma make_run_closed:
  assumes m: "insertion_count pf n p = Some m" and e: "erasure_cut p = Some ecut"
  shows "make_run G pf n p =
     Some (survivors (map ucast (take m (draws G (2 * m) (initial G))))
             (drop m (draws G (2 * m) (initial G))) ecut,
           state_after G (2 * m) (initial G))"
proof -
  have "draws G (2 * m) (initial G) =
      draws G m (initial G) @ draws G m (state_after G m (initial G))"
    using draws_add [of G m m] by (simp add: mult_2)
  then have td: "take m (draws G (2 * m) (initial G)) = draws G m (initial G)"
    "drop m (draws G (2 * m) (initial G)) = draws G m (state_after G m (initial G))"
    by (simp_all add: length_draws)
  have sa: "state_after G (2 * m) (initial G) = state_after G m (state_after G m (initial G))"
    using state_after_add [of G m m] by (simp add: mult_2)
  show ?thesis
    by (simp add: make_run_def m e insert_loop_draws erase_if_draws length_draws td sa)
qed

lemma take_draws_double: "take m (draws G (2 * m) s) = draws G m s"
  using draws_add [of G m m s] by (simp add: mult_2 length_draws)

lemma drop_draws_double: "drop m (draws G (2 * m) s) = draws G m (state_after G m s)"
  using draws_add [of G m m s] by (simp add: mult_2 length_draws)

text \<open>The first draws of the SplitMix64 instance.\<close>

lemma splitmix64_step1: "splitmix64_next 0 = (16294208416658607535, 11400714819323198485)"
  by (simp add: splitmix64_next_def Let_def)

lemma splitmix64_step2:
  "splitmix64_next 11400714819323198485 = (7960286522194355700, 4354685564936845354)"
  by (simp add: splitmix64_next_def Let_def)

lemma splitmix64_step3:
  "splitmix64_next 4354685564936845354 = (487617019471545679, 15755400384260043839)"
  by (simp add: splitmix64_next_def Let_def)

lemma splitmix64_step4:
  "splitmix64_next 15755400384260043839 = (17909611376780542444, 8709371129873690708)"
  by (simp add: splitmix64_next_def Let_def)

lemmas splitmix64_steps = splitmix64_step1 splitmix64_step2 splitmix64_step3 splitmix64_step4

lemma draws_splitmix64_4:
  "draws splitmix64 4 (initial splitmix64) =
     [16294208416658607535, 7960286522194355700, 487617019471545679, 17909611376780542444]"
  by (simp add: eval_nat_numeral splitmix64_def splitmix64_steps)

lemma draws_splitmix64_2:
  "draws splitmix64 2 (initial splitmix64) = [16294208416658607535, 7960286522194355700]"
  by (simp add: eval_nat_numeral splitmix64_def splitmix64_steps)



lemma uint64_max_as_double: "double_of_int (uint uint64_max) = 2 ^ 64"
proof -
  have "uint uint64_max = 18446744073709551615" by code_simp
  then show ?thesis by (simp add: fp_eval)
qed

lemma erasure_cut_half: "erasure_cut (1 / 2) = Some (2 ^ 63)"
proof -
  have "dmul (1 / 2) (2 ^ 64) = 2 ^ 63" by (simp add: fp_eval)
  then show ?thesis
    by (simp add: erasure_cut_def uint64_max_as_double double_to_unsigned_def)
qed

lemma insertion_count_examples:
  "insertion_count lp64 2 (1 / 4) = Some 2"
  "insertion_count lp64 1 (1 / 2) = Some 2"
  "insertion_count lp64 1000 (rnd (3 / 10)) = Some 1428"
  "insertion_count lp64 9007199254740993 0 = Some 9007199254740992"
  by (simp_all add: insertion_count_def double_to_unsigned_def lp64_def fp_eval)

lemma ucast_examples:
  "ucast (16294208416658607535 :: 64 word) = (2065550767 :: 32 word)"
  "ucast (7960286522194355700 :: 64 word) = (2713282036 :: 32 word)"
  by simp_all

text \<open>When the conversions of \<open>make\<close> are defined.\<close>

lemma pow2_mono: "a \<le> b \<Longrightarrow> pow2 a \<le> pow2 b"
  by (simp add: pow2_powi power_int_increasing)

lemma ulp_exp_below_2_64:
  assumes "0 \<le> y" and "y < 2 ^ 64"
  shows "ulp_exp y \<le> 11"
proof (cases "1 \<le> y")
  case True
  have "\<lfloor>y\<rfloor> < 2 ^ 64" using assms(2) by (simp add: floor_less_iff)
  then have "bit_length \<lfloor>y\<rfloor> \<le> 64" using bit_length_le [of "\<lfloor>y\<rfloor>" 64] by simp
  then show ?thesis using True assms(1) by (simp add: ulp_exp_def ilog2_def)
next
  case False
  have "0 \<le> bit_length (\<lceil>1 / y\<rceil> - 1)" by (rule bit_length_nonneg)
  then show ?thesis using False assms(1) by (simp add: ulp_exp_def ilog2_def)
qed

lemma double_le_pred_one:
  assumes "rnd p = p" and "p < 1"
  shows "p \<le> 1 - 1 / 2 ^ 53"
proof (cases "1 / 2 \<le> p")
  case True
  from double_below_one [OF assms(1) True assms(2)] show ?thesis by simp
next
  case False
  then have "p \<le> 1 / 2" by simp
  then show ?thesis by (rule order_trans) simp
qed

lemma dmul_2_64_bounds:
  assumes "rnd p = p" and "0 \<le> p" and "p < 1"
  shows "0 \<le> dmul p (2 ^ 64)" and "dmul p (2 ^ 64) < 2 ^ 64"
proof -
  let ?y = "p * 2 ^ 64"
  show "0 \<le> dmul p (2 ^ 64)" using assms(2) by (simp add: dmul_def rnd_nonneg)
  have y: "0 \<le> ?y" "?y \<le> 2 ^ 64 - 2 ^ 11"
    using assms(2) double_le_pred_one [OF assms(1,3)] by (simp_all add: field_simps)
  then have "?y < 2 ^ 64" by simp
  then have "pow2 (ulp_exp ?y) \<le> pow2 11"
    using ulp_exp_below_2_64 [OF y(1)] by (intro pow2_mono) simp
  then have "pow2 (ulp_exp ?y) / 2 \<le> 2 ^ 10" by (simp add: pow2_def)
  with rnd_error [of ?y] have "\<bar>rnd ?y - ?y\<bar> \<le> 2 ^ 10" by (rule order_trans)
  then have "rnd ?y \<le> ?y + 2 ^ 10" by linarith
  with y(2) have "rnd ?y < 2 ^ 64" by simp
  then show "dmul p (2 ^ 64) < 2 ^ 64" by (simp add: dmul_def)
qed

lemma erasure_cut_defined:
  assumes "rnd p = p" and "0 \<le> p" and "p < 1"
  shows "erasure_cut p = Some (of_nat (nat \<lfloor>dmul p (2 ^ 64)\<rfloor>))"
  using dmul_2_64_bounds [OF assms]
  by (simp add: erasure_cut_def uint64_max_as_double double_to_unsigned_def)

lemma insertion_count_defined:
  assumes "rnd p = p" and "0 \<le> p" and "p < 1"
    and "ddiv (double_of_nat n) (dsub 1 p) < 2 ^ (8 * size_t_bytes pf)"
  shows "insertion_count pf n p = Some (nat \<lfloor>ddiv (double_of_nat n) (dsub 1 p)\<rfloor>)"
proof -
  have d: "0 < dsub 1 p" by (rule dsub_one_pos [OF assms(1-3)])
  have "0 \<le> double_of_nat n" by (simp add: double_of_nat_def rnd_nonneg)
  then have "0 \<le> ddiv (double_of_nat n) (dsub 1 p)"
    using d by (simp add: ddiv_def rnd_nonneg)
  then show ?thesis
    using d assms(4) by (simp add: insertion_count_def double_to_unsigned_def)
qed


lemma survivors_zero:
  "length ds = length c \<Longrightarrow> survivors c ds 0 = c"
  by (simp add: survivors_def)

lemma dsub_1_0: "dsub 1 0 = 1"
  by (simp add: fp_eval)

lemma insertion_count_zero_rate:
  assumes "n \<le> 2 ^ 53" and "n < 2 ^ (8 * size_t_bytes pf)"
  shows "insertion_count pf n 0 = Some n"
proof -
  have "ddiv (double_of_nat n) (dsub 1 0) = of_nat n"
    using double_of_nat_exact [OF assms(1)]
    by (simp add: dsub_1_0 ddiv_def double_of_nat_def)
  moreover have "(of_nat n :: rat) < 2 ^ (8 * size_t_bytes pf)"
    using assms(2) by (metis of_nat_less_iff of_nat_numeral of_nat_power)
  moreover have "- 1 < (of_nat n :: rat)"
    by (rule less_le_trans [of _ 0]) simp_all
  ultimately show ?thesis
    by (simp add: insertion_count_def dsub_1_0 double_to_unsigned_def)
qed

lemma erasure_cut_zero: "erasure_cut 0 = Some 0"
  by (simp add: erasure_cut_def dmul_def rnd_zero double_to_unsigned_def)


section \<open>Claims about the dataset builder\<close>






text \<open>
  C6. The generator of \<open>make\<close> is constructed inside \<open>make\<close> and starts from its fixed
  initial state; no seed is passed in. Hence the values inserted are the first \<open>m\<close> draws
  of the stream from that state (cast to \<open>int\<close>) and the erasure decisions are made by
  the next \<open>m\<close> draws, whatever happened before the call: the returned container is a
  function of \<open>(n, p)\<close> alone, the same on every invocation.
\<close>

theorem make_fixed_stream:
  assumes "rnd p = p" and "0 \<le> p" and "p < 1"
    and "ddiv (double_of_nat n) (dsub 1 p) < 2 ^ (8 * size_t_bytes pf)"
  shows "\<exists>m ecut. insertion_count pf n p = Some m \<and> erasure_cut p = Some ecut \<and>
           insert_loop G 0 m ([], initial G) =
             (map ucast (take m (draws G (2 * m) (initial G))), state_after G m (initial G)) \<and>
           make G pf n p =
             Some (map fst (filter (\<lambda>(x, d). \<not> d < ecut)
                    (zip (map ucast (take m (draws G (2 * m) (initial G))))
                         (drop m (draws G (2 * m) (initial G)))))) \<and>
           map_option snd (make_run G pf n p) = Some (state_after G (2 * m) (initial G))"
proof -
  have m: "insertion_count pf n p = Some (nat \<lfloor>ddiv (double_of_nat n) (dsub 1 p)\<rfloor>)"
    by (rule insertion_count_defined [OF assms])
  have e: "erasure_cut p = Some (of_nat (nat \<lfloor>dmul p (2 ^ 64)\<rfloor>))"
    by (rule erasure_cut_defined [OF assms(1-3)])
  show ?thesis
    by (intro exI [of _ "nat \<lfloor>ddiv (double_of_nat n) (dsub 1 p)\<rfloor>"]
        exI [of _ "of_nat (nat \<lfloor>dmul p (2 ^ 64)\<rfloor>)"])
      (simp add: m e make_def make_run_closed [OF m e] survivors_def insert_loop_draws
        take_draws_double)
qed

theorem make_fixed_stream_example:
  "make splitmix64 lp64 1 (1 / 2) = Some [2713282036] \<and>
   draws splitmix64 4 (initial splitmix64) =
     [16294208416658607535, 7960286522194355700, 487617019471545679, 17909611376780542444]"
proof -
  have h: "rnd (1 / 2) = 1 / 2" "(0::rat) \<le> 1 / 2" "(1 / 2 :: rat) < 1"
    "ddiv (double_of_nat 1) (dsub 1 (1 / 2)) < 2 ^ (8 * size_t_bytes lp64)"
    by (simp_all add: lp64_def fp_eval)
  from make_fixed_stream [OF h, of splitmix64]
  obtain m ecut where m: "insertion_count lp64 1 (1 / 2) = Some m"
    and e: "erasure_cut (1 / 2) = Some ecut"
    and r: "make splitmix64 lp64 1 (1 / 2) =
      Some (map fst (filter (\<lambda>(x, d). \<not> d < ecut)
        (zip (map ucast (take m (draws splitmix64 (2 * m) (initial splitmix64))))
             (drop m (draws splitmix64 (2 * m) (initial splitmix64))))))"
    by blast
  have "m = 2" using m insertion_count_examples(2) by simp
  moreover have "ecut = 2 ^ 63" using e erasure_cut_half by simp
  ultimately have "make splitmix64 lp64 1 (1 / 2) = Some [2713282036]"
    using r by (simp add: draws_splitmix64_4)
  with draws_splitmix64_4 show ?thesis by blast
qed

text \<open>
  C10. For erasure rate 0 the insertion count is the target size \<open>n\<close> and the cutoff is 0;
  no unsigned draw is below 0, so the erasure pass removes nothing and the returned
  container holds exactly \<open>n\<close> elements, the first \<open>n\<close> draws. Here \<open>n\<close> is a
  \<open>std::size_t\<close> that converts to \<open>double\<close> exactly (\<open>n \<le> 2 ^ 53\<close>), as does every size
  whose elements fit in memory.
\<close>

theorem make_zero_rate_keeps_all:
  assumes "n \<le> 2 ^ 53" and "n < 2 ^ (8 * size_t_bytes pf)"
  shows "insertion_count pf n 0 = Some n \<and> erasure_cut 0 = Some 0 \<and>
         (\<forall>v :: 64 word. \<not> v < 0) \<and>
         fst (erase_if (erase_pred G 0) c s) = c \<and>
         make G pf n 0 = Some (map ucast (draws G n (initial G))) \<and>
         map_option length (make G pf n 0) = Some n"
proof -
  have m: "insertion_count pf n 0 = Some n" by (rule insertion_count_zero_rate [OF assms])
  have k: "fst (erase_if (erase_pred G 0) c s) = c"
    by (simp add: erase_if_draws survivors_zero length_draws)
  have "make G pf n 0 = Some (map ucast (draws G n (initial G)))"
    by (simp add: make_def make_run_closed [OF m erasure_cut_zero] survivors_zero length_draws
        take_draws_double drop_draws_double)
  then show ?thesis using m k by (simp add: erasure_cut_zero length_draws)
qed

theorem make_zero_rate_example:
  "make splitmix64 lp64 2 0 = Some [2065550767, 2713282036]"
proof -
  have "(2::nat) \<le> 2 ^ 53" "(2::nat) < 2 ^ (8 * size_t_bytes lp64)"
    by (simp_all add: lp64_def)
  from make_zero_rate_keeps_all [OF this, of splitmix64]
  have "make splitmix64 lp64 2 0 = Some (map ucast (draws splitmix64 2 (initial splitmix64)))"
    by blast
  then show ?thesis by (simp add: draws_splitmix64_2)
qed

section \<open>Facts about the report and the driver\<close>

lemma min_element_loop_spec:
  assumes "sm < i" "i \<le> length xs" "\<forall>j<i. xs ! sm \<le> xs ! j" "\<forall>j < sm. xs ! sm < xs ! j"
  shows "min_element_loop xs i sm < length xs
       \<and> (\<forall>j<length xs. xs ! min_element_loop xs i sm \<le> xs ! j)
       \<and> (\<forall>j<min_element_loop xs i sm. xs ! min_element_loop xs i sm < xs ! j)"
  using assms
proof (induction xs i sm rule: min_element_loop.induct)
  case (1 xs first smallest)
  show ?case
  proof (cases "first < length xs")
    case False
    with 1 have "first = length xs" by simp
    with 1 False show ?thesis by (subst (1 2 3 4) min_element_loop.simps) simp
  next
    case True
    let ?s = "if xs ! first < xs ! smallest then first else smallest"
    have a: "?s < first + 1" using 1(2) by simp
    have b: "first + 1 \<le> length xs" using True by simp
    have c: "\<forall>j<first + 1. xs ! ?s \<le> xs ! j"
    proof (intro allI impI)
      fix j assume "j < first + 1"
      then consider "j < first" | "j = first" by linarith
      then show "xs ! ?s \<le> xs ! j"
      proof cases
        case 1
        then have "xs ! smallest \<le> xs ! j" using \<open>\<forall>j<first. xs ! smallest \<le> xs ! j\<close> by simp
        then show ?thesis by auto
      next
        case 2
        then show ?thesis by auto
      qed
    qed
    have d: "\<forall>j < ?s. xs ! ?s < xs ! j"
    proof (intro allI impI)
      fix j assume j: "j < ?s"
      show "xs ! ?s < xs ! j"
      proof (cases "xs ! first < xs ! smallest")
        case True
        then have "j < first" using j by simp
        then have "xs ! smallest \<le> xs ! j" using \<open>\<forall>j<first. xs ! smallest \<le> xs ! j\<close> by simp
        with True show ?thesis by simp
      next
        case False
        then show ?thesis using j 1(5) by simp
      qed
    qed
    have eq: "min_element_loop xs first smallest = min_element_loop xs (first + 1) ?s"
      using True by (subst min_element_loop.simps) simp
    show ?thesis unfolding eq by (rule 1(1) [OF True a b c d])
  qed
qed

lemma min_element_spec:
  assumes "xs \<noteq> []"
  shows "min_element xs < length xs
       \<and> (\<forall>j<length xs. xs ! min_element xs \<le> xs ! j)
       \<and> (\<forall>j<min_element xs. xs ! min_element xs < xs ! j)"
proof -
  have l: "1 \<le> length xs" using assms by (cases xs) simp_all
  have "min_element xs = min_element_loop xs 1 0" using assms by (simp add: min_element_def)
  moreover have "min_element_loop xs 1 0 < length xs
       \<and> (\<forall>j<length xs. xs ! min_element_loop xs 1 0 \<le> xs ! j)
       \<and> (\<forall>j<min_element_loop xs 1 0. xs ! min_element_loop xs 1 0 < xs ! j)"
    by (rule min_element_loop_spec) (use l in auto)
  ultimately show ?thesis by simp
qed

lemma std_min_min: "std_min a b = min a b"
  by (simp add: std_min_def min_def)

lemma Min_insert_min:
  fixes a :: "'a :: linorder"
  assumes "finite A"
  shows "Min (insert (min a b) A) = Min (insert a (insert b A))"
proof (cases "A = {}")
  case True
  then show ?thesis by simp
next
  case False
  then show ?thesis using assms by (simp add: min.assoc)
qed

lemma next_min_loop_Min:
  "it \<le> length il \<Longrightarrow>
   next_min_loop il m it acc = Min (insert acc {il ! j |j. it \<le> j \<and> j < length il \<and> j \<noteq> m})"
proof (induction il m it acc rule: next_min_loop.induct)
  case (1 il it_min it next_min)
  let ?S = "\<lambda>k. {il ! j |j. k \<le> j \<and> j < length il \<and> j \<noteq> it_min}"
  have fin: "finite (?S k)" for k by simp
  show ?case
  proof (cases "it < length il")
    case False
    then have e: "?S it = {}" by auto
    have "next_min_loop il it_min it next_min = next_min"
      using False by (subst next_min_loop.simps) simp
    then show ?thesis unfolding e by simp
  next
    case True
    show ?thesis
    proof (cases "it = it_min")
      case eq: True
      have "?S it = ?S (it + 1)" using eq by (auto simp: Suc_le_eq)
      moreover have "next_min_loop il it_min it next_min = next_min_loop il it_min (it + 1) next_min"
        using True eq by (subst next_min_loop.simps) simp
      ultimately show ?thesis using 1(1) [OF True eq] True by simp
    next
      case ne: False
      have "?S it = insert (il ! it) (?S (it + 1))"
        using ne True by (auto simp: Suc_le_eq) (metis le_neq_implies_less)
      moreover have "next_min_loop il it_min it next_min =
          next_min_loop il it_min (it + 1) (std_min next_min (il ! it))"
        using True ne by (subst next_min_loop.simps) simp
      moreover have "Min (insert (std_min next_min (il ! it)) (?S (it + 1))) =
          Min (insert next_min (insert (il ! it) (?S (it + 1))))"
        unfolding std_min_min by (rule Min_insert_min) simp
      ultimately show ?thesis using 1(2) [OF True ne] True by simp
    qed
  qed
qed

lemma fquot_finite:
  "y \<noteq> 0 \<Longrightarrow> \<bar>rnd (x / y)\<bar> \<le> DBL_MAX \<Longrightarrow> fquot x y = Finite (rnd (x / y))"
  by (simp add: fquot_def ddiv_def)

lemma print_winner_spec:
  assumes "il \<noteq> []"
  shows "\<exists>i nm. i < length il
         \<and> (\<forall>j<length il. il ! i \<le> il ! j)
         \<and> (\<forall>j < i. il ! i < il ! j)
         \<and> nm = Min (insert DBL_MAX {il ! j |j. j < length il \<and> j \<noteq> i})
         \<and> print_winner th il =
             Some [Integer (int i + 1), Fixed, Setprecision 2,
                   Str '' ('', Dbl (fquot nm (il ! i)), Str ''x, '',
                   Dbl (fquot th (il ! i)), Str ''x)  '',
                   Defaultfloat, Setprecision 6]"
proof -
  let ?i = "min_element il"
  let ?nm = "Min (insert DBL_MAX {il ! j |j. j < length il \<and> j \<noteq> ?i})"
  note m = min_element_spec [OF assms]
  have "next_min_loop il ?i 0 DBL_MAX = ?nm"
    by (simp add: next_min_loop_Min)
  then have "print_winner th il =
             Some [Integer (int ?i + 1), Fixed, Setprecision 2,
                   Str '' ('', Dbl (fquot ?nm (il ! ?i)), Str ''x, '',
                   Dbl (fquot th (il ! ?i)), Str ''x)  '',
                   Defaultfloat, Setprecision 6]"
    using m by (simp add: print_winner_def Let_def)
  with m show ?thesis by blast
qed

lemma Min_insert_above:
  fixes a :: "'a :: linorder"
  assumes "finite S" and "S \<noteq> {}" and "Min S \<le> a"
  shows "Min (insert a S) = Min S"
  using assms by (simp add: min_absorb2)

lemma Min_others:
  assumes "2 \<le> length il" and "i < length il" and "\<forall>x\<in>set il. x \<le> DBL_MAX"
  shows "Min (insert DBL_MAX {il ! j |j. j < length il \<and> j \<noteq> i}) =
         Min {il ! j |j. j < length il \<and> j \<noteq> i}"
proof -
  let ?S = "{il ! j |j. j < length il \<and> j \<noteq> i}"
  have fin: "finite ?S" by simp
  obtain j where j: "j < length il" "j \<noteq> i"
  proof (cases "i = 0")
    case True
    then show ?thesis using assms(1) that [of 1] by simp
  next
    case False
    have "0 < length il" using assms(1) by linarith
    then show ?thesis using False that [of 0] by simp
  qed
  then have ne: "?S \<noteq> {}" by blast
  have "Min ?S \<in> ?S" using fin ne by (rule Min_in)
  then have "Min ?S \<in> set il" by auto
  then have "Min ?S \<le> DBL_MAX" using assms(3) by blast
  with fin ne show ?thesis by (rule Min_insert_above)
qed

lemma others_example:
  "{[5, 3, 3, 7 :: double] ! j |j. j < length [5, 3, 3, 7 :: double] \<and> j \<noteq> 1} = {5, 3, 7}"
  (is "?L = ?R")
proof
  show "?L \<subseteq> ?R" by (auto simp: less_Suc_eq nth_Cons')
  have "[5, 3, 3, 7 :: double] ! 0 \<in> ?L" by (intro CollectI exI [of _ 0]) simp
  moreover have "[5, 3, 3, 7 :: double] ! 2 \<in> ?L" by (intro CollectI exI [of _ 2]) simp
  moreover have "[5, 3, 3, 7 :: double] ! 3 \<in> ?L" by (intro CollectI exI [of _ 3]) simp
  ultimately show "?R \<subseteq> ?L" by simp
qed

lemma DBL_MAX_ge_4: "4 \<le> DBL_MAX"
proof -
  have "(1::rat) \<le> 2 ^ 971" by simp
  moreover have "(4::rat) \<le> 2 ^ 53 - 1" by simp
  ultimately have "4 * 1 \<le> (2 ^ 53 - 1) * (2 ^ 971 :: rat)" by (intro mult_mono) simp_all
  then show ?thesis by (simp add: DBL_MAX_def)
qed

lemma DBL_MAX_ge_3: "3 \<le> DBL_MAX"
  using DBL_MAX_ge_4 by simp

lemma ddiv_3_3: "ddiv 3 3 = 1"
  by (simp add: ddiv_def rnd_1)

lemma ddiv_10_3: "ddiv 10 3 = 7505999378950827 / 2251799813685248"
  by (simp add: fp_eval)

lemma fquot_3_3: "fquot 3 3 = Finite 1"
  using DBL_MAX_ge_4 by (simp add: fquot_def ddiv_3_3)

lemma fquot_10_3: "fquot 10 3 = Finite (7505999378950827 / 2251799813685248)"
proof -
  have "\<bar>7505999378950827 / 2251799813685248 :: rat\<bar> \<le> 4" by simp
  then have "\<bar>7505999378950827 / 2251799813685248 :: rat\<bar> \<le> DBL_MAX"
    using DBL_MAX_ge_4 by (rule order_trans)
  then show ?thesis by (simp add: fquot_def ddiv_10_3 not_less [symmetric])
qed

lemma measure_op_throws:
  assumes "f (w\<lparr>measure_start := now w\<rparr>) = Thrown w'"
  shows "measure_op f w = Some (Thrown w')"
proof -
  have "do_while f 0 (w\<lparr>measure_start := now w\<rparr>) = Some (Thrown w')"
    by (subst do_while.simps) (simp add: assms)
  then have "trial f w = Some (Thrown w')" by (simp add: trial_def)
  then have "trials_loop f 0 (replicate num_trials 0) w = Some (Thrown w')"
    by (subst trials_loop.simps) (simp add: num_trials_def)
  then show ?thesis by (simp add: measure_op_def)
qed

lemma sort_lambda_oom: "sort_lambda oom_env alg n r w = Thrown (pause_timing w)"
  by (simp add: sort_lambda_def oom_env_def)

lemma try_block_oom:
  "try_block oom_env pf n r w = Some (Thrown (pause_timing (w\<lparr>measure_start := now w\<rparr>)))"
  by (simp add: try_block_def and_then_def measure_op_throws [OF sort_lambda_oom])

lemma cell_too_large:
  assumes "too_large pf (10 ^ i) erasure_rate"
  shows "cell E pf erasure_rate i (w, out) = Some (w, out @ [Str ''too large         '', Flush])"
  using assms by (simp add: cell_def)

lemma size_limit_values:
  "size_limit pf = (if size_t_bytes pf = 4 then 800 * 2 ^ 20 else 2 * 2 ^ 30)"
  by (simp add: size_limit_def)

lemma last_rate:
  "((\<lambda>r. dadd r (rnd (1 / 10))) ^^ 9) 0 = 2026619832316723 / 2251799813685248"
  by (simp add: numeral_eq_Suc) (simp add: fp_eval)

lemma too_large_wide: "too_large wide (10 ^ 7) (2026619832316723 / 2251799813685248)"
  by (simp add: too_large_def wide_def size_limit_def Let_def) (simp add: fp_eval)

lemma not_too_large_wide: "\<not> too_large wide (10 ^ 3) 0"
  by (simp add: too_large_def wide_def size_limit_def Let_def) (simp add: fp_eval)

lemma cell_oom_small:
  "cell oom_env wide 0 3 (\<lparr>now = 0, measure_start = 0, measure_pause = 0\<rparr>, []) =
     Some (\<lparr>now = 0, measure_start = 0, measure_pause = 0\<rparr>, [Str ''out of memory     '', Flush])"
  using not_too_large_wide by (simp add: cell_def try_block_oom pause_timing_def)


lemma erasure_rates_values:
  "erasure_rates =
     [0, 3602879701896397 / 36028797018963968, 3602879701896397 / 18014398509481984,
      1351079888211149 / 4503599627370496, 3602879701896397 / 9007199254740992, 1 / 2,
      5404319552844595 / 9007199254740992, 3152519739159347 / 4503599627370496,
      7205759403792793 / 9007199254740992, 2026619832316723 / 2251799813685248]"
  unfolding erasure_rates_def
  by (simp add: upt_rec numeral_eq_Suc) (simp add: fp_eval)








section \<open>Claims about the report and the driver\<close>

text \<open>
  C7. Given a reference time \<open>th\<close> and a non-empty list of competitor times,
  \<open>print_winner\<close> reports the 1-based index of the first occurrence of the minimum time
  (position \<open>i\<close>: no time is below it and every earlier time is strictly above it), then
  the ratio of the smallest time over the other positions to the winner's time, then the
  ratio of the reference time to the winner's time. The running second minimum starts
  from \<open>DBL_MAX\<close>, which changes nothing for a list of two or more doubles. A ratio is the
  quotient rounded to the nearest double, whenever the winner's time is not zero and the
  quotient does not overflow.
\<close>

theorem print_winner_reports_minimum:
  assumes "il \<noteq> []"
  shows "\<exists>i nm. i < length il
         \<and> (\<forall>j<length il. il ! i \<le> il ! j)
         \<and> (\<forall>j < i. il ! i < il ! j)
         \<and> nm = Min (insert DBL_MAX {il ! j |j. j < length il \<and> j \<noteq> i})
         \<and> (2 \<le> length il \<and> (\<forall>x\<in>set il. x \<le> DBL_MAX) \<longrightarrow>
              nm = Min {il ! j |j. j < length il \<and> j \<noteq> i})
         \<and> print_winner th il =
             Some [Integer (int i + 1), Fixed, Setprecision 2,
                   Str '' ('', Dbl (fquot nm (il ! i)), Str ''x, '',
                   Dbl (fquot th (il ! i)), Str ''x)  '',
                   Defaultfloat, Setprecision 6]
         \<and> (il ! i \<noteq> 0 \<and> \<bar>rnd (nm / il ! i)\<bar> \<le> DBL_MAX \<and> \<bar>rnd (th / il ! i)\<bar> \<le> DBL_MAX \<longrightarrow>
              fquot nm (il ! i) = Finite (rnd (nm / il ! i)) \<and>
              fquot th (il ! i) = Finite (rnd (th / il ! i)))"
proof -
  from print_winner_spec [OF assms, of th] obtain i nm where
    a: "i < length il" and b: "\<forall>j<length il. il ! i \<le> il ! j" and c: "\<forall>j < i. il ! i < il ! j"
    and d: "nm = Min (insert DBL_MAX {il ! j |j. j < length il \<and> j \<noteq> i})"
    and e: "print_winner th il =
             Some [Integer (int i + 1), Fixed, Setprecision 2,
                   Str '' ('', Dbl (fquot nm (il ! i)), Str ''x, '',
                   Dbl (fquot th (il ! i)), Str ''x)  '',
                   Defaultfloat, Setprecision 6]"
    by blast
  have f: "2 \<le> length il \<and> (\<forall>x\<in>set il. x \<le> DBL_MAX) \<longrightarrow>
              nm = Min {il ! j |j. j < length il \<and> j \<noteq> i}"
    unfolding d using a by (intro impI Min_others) simp_all
  have g: "il ! i \<noteq> 0 \<and> \<bar>rnd (nm / il ! i)\<bar> \<le> DBL_MAX \<and> \<bar>rnd (th / il ! i)\<bar> \<le> DBL_MAX \<longrightarrow>
              fquot nm (il ! i) = Finite (rnd (nm / il ! i)) \<and>
              fquot th (il ! i) = Finite (rnd (th / il ! i))"
    by (simp add: fquot_finite)
  show ?thesis
    by (rule exI [of _ i], rule exI [of _ nm]) (intro conjI a b c d e f g)
qed

text \<open>
  For the times \<open>{5.0, 3.0, 3.0, 7.0}\<close> and the reference time \<open>10.0\<close> the report is
  winner 2, runner-up ratio \<open>1.0\<close> and reference ratio \<open>10.0 / 3.0\<close>, the double nearest
  to \<open>10 / 3\<close>.
\<close>

theorem print_winner_example:
  "print_winner 10 [5, 3, 3, 7] =
     Some [Integer 2, Fixed, Setprecision 2,
           Str '' ('', Dbl (Finite 1), Str ''x, '',
           Dbl (Finite (7505999378950827 / 2251799813685248)), Str ''x)  '',
           Defaultfloat, Setprecision 6]
   \<and> rnd (10 / 3) = 7505999378950827 / 2251799813685248"
proof -
  let ?il = "[5, 3, 3, 7 :: double]"
  have "?il \<noteq> []" by simp
  from print_winner_reports_minimum [OF this, of 10] obtain i nm where
    a: "i < length ?il" and b: "\<forall>j<length ?il. ?il ! i \<le> ?il ! j"
    and c: "\<forall>j < i. ?il ! i < ?il ! j"
    and d: "nm = Min (insert DBL_MAX {?il ! j |j. j < length ?il \<and> j \<noteq> i})"
    and e: "print_winner 10 ?il =
             Some [Integer (int i + 1), Fixed, Setprecision 2,
                   Str '' ('', Dbl (fquot nm (?il ! i)), Str ''x, '',
                   Dbl (fquot 10 (?il ! i)), Str ''x)  '',
                   Defaultfloat, Setprecision 6]"
    by blast
  from a consider "i = 0" | "i = 1" | "i = 2" | "i = 3" by (auto simp: less_Suc_eq numeral_eq_Suc)
  then have i: "i = 1"
  proof cases
    case 1
    have "?il ! i \<le> ?il ! 1" using b [rule_format, of 1] by simp
    with 1 show ?thesis by simp
  next
    case 2
    then show ?thesis .
  next
    case 3
    then have "?il ! i < ?il ! 1" using c [rule_format, of 1] by simp
    with 3 show ?thesis by simp
  next
    case 4
    have "?il ! i \<le> ?il ! 1" using b [rule_format, of 1] by simp
    with 4 show ?thesis by simp
  qed
  have nm: "nm = 3"
    unfolding d i others_example using DBL_MAX_ge_3 by (simp add: min_def)
  have q: "rnd (10 / 3) = 7505999378950827 / 2251799813685248"
    using ddiv_10_3 by (simp add: ddiv_def)
  have "print_winner 10 ?il =
     Some [Integer 2, Fixed, Setprecision 2,
           Str '' ('', Dbl (Finite 1), Str ''x, '',
           Dbl (Finite (7505999378950827 / 2251799813685248)), Str ''x)  '',
           Defaultfloat, Setprecision 6]"
    unfolding e i nm by (simp add: fquot_3_3 fquot_10_3)
  with q show ?thesis by simp
qed

text \<open>
  C8. For every cell (exponent \<open>i\<close>, size \<open>10 ^ i\<close>, erasure rate \<open>p\<close>) whose inflated
  footprint \<open>n * sizeof(element) / (1 - p)\<close>, evaluated in binary64 as the guard does,
  exceeds the ceiling (800 MiB when \<open>sizeof(std::size_t)\<close> is 4, 2 GiB otherwise), the body
  of the inner loop appends the sentinel \<open>too large\<close> and a flush to the output and ends.
  The clock is left as it was and the result is the same in every environment: neither
  \<open>measure\<close> nor \<open>make\<close> nor a sort is called.
\<close>

theorem too_large_skips_measurement:
  assumes "too_large pf (10 ^ i) erasure_rate"
  shows "cell E pf erasure_rate i (w, out) = Some (w, out @ [Str ''too large         '', Flush])
       \<and> cell E pf erasure_rate i (w, out) = cell E' pf erasure_rate i (w, out)
       \<and> size_limit pf = (if size_t_bytes pf = 4 then 800 * 2 ^ 20 else 2 * 2 ^ 30)"
  using cell_too_large [OF assms, of E] cell_too_large [OF assms, of E'] size_limit_values
  by simp

text \<open>
  With elements of 64 bytes the cell of size \<open>10 ^ 7\<close> at the last erasure rate is too
  large. In an environment where every construction of a dataset fails, that cell prints
  the sentinel, while a cell that passes the guard prints \<open>out of memory\<close>.
\<close>

theorem too_large_skips_example:
  "too_large wide (10 ^ 7) (last erasure_rates)
   \<and> cell oom_env wide (last erasure_rates) 7
        (\<lparr>now = 0, measure_start = 0, measure_pause = 0\<rparr>, []) =
      Some (\<lparr>now = 0, measure_start = 0, measure_pause = 0\<rparr>, [Str ''too large         '', Flush])
   \<and> \<not> too_large wide (10 ^ 3) 0
   \<and> cell oom_env wide 0 3 (\<lparr>now = 0, measure_start = 0, measure_pause = 0\<rparr>, []) =
      Some (\<lparr>now = 0, measure_start = 0, measure_pause = 0\<rparr>, [Str ''out of memory     '', Flush])"
proof -
  have l: "last erasure_rates = 2026619832316723 / 2251799813685248"
    unfolding erasure_rates_values by simp
  have t: "too_large wide (10 ^ 7) (last erasure_rates)"
    unfolding l by (rule too_large_wide)
  from too_large_skips_measurement [OF t, of oom_env "\<lparr>now = 0, measure_start = 0, measure_pause = 0\<rparr>" "[]"]
  have "cell oom_env wide (last erasure_rates) 7
        (\<lparr>now = 0, measure_start = 0, measure_pause = 0\<rparr>, []) =
      Some (\<lparr>now = 0, measure_start = 0, measure_pause = 0\<rparr>, [Str ''too large         '', Flush])"
    by simp
  with t not_too_large_wide cell_oom_small show ?thesis by simp
qed





end
